theory Spec2Isabelle
  imports Main "HOL-Library.Sublist"
begin

section \<open>Errors and settled promises\<close>

text \<open>
  The scripts are asynchronous JavaScript.  An awaited call either resolves with a value
  or rejects with an error; a call of \<^verbatim>\<open>process.exit(n)\<close> ends the whole process.
  A rejection is the left injection of a sum, as an exception would be.
\<close>

datatype error =
    ENOENT | ENOTDIR | EISDIR | EEXIST | EACCES
  | BuildFailure | JsonSyntaxError | TypeError

text \<open>How an awaited call of an exported script function ends, seen by its caller.\<close>

datatype settle = Resolved | Rejected error | ProcessExit nat

section \<open>scripts/build.js\<close>

text \<open>
  What the environment answers to the four awaited steps of \<^verbatim>\<open>buildProject\<close>:
  the two \<^verbatim>\<open>fs.mkdir\<close> calls, esbuild's \<^verbatim>\<open>build\<close> and the copy of
  \<^verbatim>\<open>src/index.html\<close> (its own \<^verbatim>\<open>fs.mkdir\<close> and \<^verbatim>\<open>fs.copyFile\<close>).
\<close>

record build_env =
  mkdir_public :: "error + unit"
  mkdir_dist :: "error + unit"
  esbuild :: "error + unit"
  mkdir_html :: "error + unit"
  copy_html :: "error + unit"

text \<open>\<^verbatim>\<open>ensureDir\<close> of build.js: an \<^verbatim>\<open>EEXIST\<close> from mkdir is swallowed, any other error rethrown.\<close>

definition build_ensureDir :: "error + unit \<Rightarrow> error + unit" where
  "build_ensureDir r = (case r of Inl e \<Rightarrow> (if e \<noteq> EEXIST then Inl e else Inr ()) | Inr u \<Rightarrow> Inr u)"

definition build_copyFile :: "error + unit \<Rightarrow> error + unit \<Rightarrow> error + unit" where
  "build_copyFile mk cp = (case build_ensureDir mk of Inl e \<Rightarrow> Inl e | Inr _ \<Rightarrow> cp)"

text \<open>The body of the \<^verbatim>\<open>try\<close> block of \<^verbatim>\<open>buildProject\<close>: the first step that throws ends it.\<close>

definition buildProject_try :: "build_env \<Rightarrow> error + unit" where
  "buildProject_try env =
     (case build_ensureDir (mkdir_public env) of Inl e \<Rightarrow> Inl e | Inr _ \<Rightarrow>
      case build_ensureDir (mkdir_dist env) of Inl e \<Rightarrow> Inl e | Inr _ \<Rightarrow>
      case esbuild env of Inl e \<Rightarrow> Inl e | Inr _ \<Rightarrow>
      build_copyFile (mkdir_html env) (copy_html env))"

text \<open>
  \<^verbatim>\<open>buildProject\<close>: the \<^verbatim>\<open>catch\<close> clause prints the error and calls
  \<^verbatim>\<open>process.exit(1)\<close>; the promise is never rejected.
\<close>

definition buildProject :: "build_env \<Rightarrow> settle" where
  "buildProject env = (case buildProject_try env of Inl e \<Rightarrow> ProcessExit 1 | Inr _ \<Rightarrow> Resolved)"

section \<open>scripts/dev.js: the watch-rebuild loop\<close>

text \<open>
  The two flags of \<^verbatim>\<open>DevServer\<close>, the callbacks that \<^verbatim>\<open>setTimeout\<close> has scheduled and
  that have not fired yet, the exit status once the process has ended, and two counters
  that the code does not hold but the properties speak about: how many times
  \<^verbatim>\<open>buildProject\<close> has been called, and whether a watched file has changed since the
  last such call.
\<close>

record dev =
  isBuilding :: bool
  buildQueue :: bool
  timers :: nat
  exit_code :: "nat option"
  builds_started :: nat
  stale :: bool

definition DevServer :: dev where
  "DevServer = \<lparr>isBuilding = False, buildQueue = False, timers = 0, exit_code = None,
     builds_started = 0, stale = False\<rparr>"

text \<open>\<^verbatim>\<open>build()\<close> up to its \<^verbatim>\<open>await\<close>: either the early return, or the call of buildProject.\<close>

definition build_call :: "dev \<Rightarrow> dev" where
  "build_call s =
     (if isBuilding s then s\<lparr>buildQueue := True\<rparr>
      else s\<lparr>isBuilding := True, builds_started := builds_started s + 1, stale := False\<rparr>)"

text \<open>
  \<^verbatim>\<open>build()\<close> after the awaited \<^verbatim>\<open>buildProject()\<close> has settled: \<^verbatim>\<open>try\<close> or
  \<^verbatim>\<open>catch\<close>, then \<^verbatim>\<open>finally\<close>.  When buildProject has ended the process, nothing runs.
\<close>

definition build_finally :: "dev \<Rightarrow> dev" where
  "build_finally s =
     (let s1 = s\<lparr>isBuilding := False\<rparr>
      in if buildQueue s1 then s1\<lparr>buildQueue := False, timers := timers s1 + 1\<rparr> else s1)"

definition build_resume :: "settle \<Rightarrow> dev \<Rightarrow> dev" where
  "build_resume r s =
     (case r of
        Resolved \<Rightarrow> build_finally s
      | Rejected e \<Rightarrow> build_finally s
      | ProcessExit c \<Rightarrow> s\<lparr>exit_code := Some c\<rparr>)"

text \<open>
  What the event loop delivers: a watcher event (change, add or unlink all call
  \<^verbatim>\<open>this.build()\<close>), the end of the bundler invocation in flight, a timer firing.
  An event that cannot happen in a state (no build in flight, no timer pending, process
  gone) leaves it as it is.
\<close>

datatype event = Change | BuildProjectEnds build_env | TimerFires

definition step :: "dev \<Rightarrow> event \<Rightarrow> dev" where
  "step s ev =
     (if exit_code s \<noteq> None then s
      else case ev of
        Change \<Rightarrow> build_call (s\<lparr>stale := True\<rparr>)
      | BuildProjectEnds env \<Rightarrow> (if isBuilding s then build_resume (buildProject env) s else s)
      | TimerFires \<Rightarrow> (if 0 < timers s then build_call (s\<lparr>timers := timers s - 1\<rparr>) else s))"

definition run :: "dev \<Rightarrow> event list \<Rightarrow> dev" where
  "run s evs = foldl step s evs"

definition idle :: "dev \<Rightarrow> bool" where
  "idle s = (\<not> isBuilding s \<and> \<not> buildQueue s \<and> timers s = 0)"

text \<open>A change that no bundler invocation has seen yet is covered by the pending flag of
  the build in flight or by a scheduled timer.\<close>

definition covered :: "dev \<Rightarrow> bool" where
  "covered s = (stale s \<longrightarrow> (isBuilding s \<and> buildQueue s) \<or> 0 < timers s)"

text \<open>An environment in which every step of the bundler invocation succeeds, and one in
  which esbuild reports an error (a syntax error in a source file, say).\<close>

definition env_ok :: build_env where
  "env_ok = \<lparr>mkdir_public = Inr (), mkdir_dist = Inr (), esbuild = Inr (),
     mkdir_html = Inr (), copy_html = Inr ()\<rparr>"

definition env_esbuild_fails :: build_env where
  "env_esbuild_fails = env_ok\<lparr>esbuild := Inl BuildFailure\<rparr>"

text \<open>The events of \<open>n\<close> scheduled rebuilds that run one after another: a timer fires, the
  build that it starts ends, and only then the next timer fires.\<close>

definition settle :: "build_env \<Rightarrow> nat \<Rightarrow> event list" where
  "settle env n = concat (replicate n [TimerFires, BuildProjectEnds env])"

text \<open>
  A state with a build in flight and a timer still pending: a queued rebuild was scheduled
  with \<^verbatim>\<open>setTimeout\<close>, and within its 100 ms a further watcher event found
  \<^verbatim>\<open>isBuilding\<close> false and started a build at once.
\<close>

definition building_in_window :: dev where
  "building_in_window = run DevServer [Change, Change, BuildProjectEnds env_ok, Change]"

section \<open>scripts/copy-monaco.js: the file system\<close>

text \<open>
  A path is the list of its components below \<^verbatim>\<open>projectRoot\<close>, which exists and is a
  directory (the scripts live in it): \<^verbatim>\<open>path.join(dest, name)\<close> is \<open>dest @ [name]\<close> for
  a directory entry's name, \<^verbatim>\<open>path.dirname\<close> is \<open>butlast\<close>.

  The tree that is copied from (\<^verbatim>\<open>node_modules/modern-monaco/dist\<close>) is only read, and
  does not overlap the tree that is written (\<^verbatim>\<open>public/monaco\<close>).  It is a value of its
  own: what \<^verbatim>\<open>fs.readdir(src, {withFileTypes: true})\<close> lists, in that order, with for
  every node whether the process may read it.  The written tree is a map from paths to
  entries.
\<close>

type_synonym path = "string list"

record verificationData =
  timestamp :: string
  files :: "string list"
  status :: string

text \<open>What a file holds: bytes, or the JSON text of a \<^verbatim>\<open>verificationData\<close> object (kept as
  the object that \<^verbatim>\<open>JSON.stringify\<close> was given).\<close>

datatype content = Bytes string | Json verificationData

datatype entry = FileE content | DirE

type_synonym fs = "path \<Rightarrow> entry option"

text \<open>A node of the source tree: a file with its bytes, or a directory with its entries
  as \<^verbatim>\<open>fs.readdir\<close> lists them.  The flag says whether the process may read the node.\<close>

datatype snode = SFile bool content | SDir bool "(string \<times> snode) list"

text \<open>\<^verbatim>\<open>entry.isDirectory()\<close> of a listed entry.\<close>

fun isDirectory :: "snode \<Rightarrow> bool" where
  "isDirectory (SDir r es) = True"
| "isDirectory (SFile r c) = False"

text \<open>What is at a path; the root \<^verbatim>\<open>projectRoot\<close> is a directory.\<close>

definition stat :: "fs \<Rightarrow> path \<Rightarrow> entry option" where
  "stat fs p = (if p = [] then Some DirE else fs p)"

text \<open>\<^verbatim>\<open>fs.access(p)\<close> with the default mode: does anything exist at \<open>p\<close>?\<close>

definition fs_access :: "path \<Rightarrow> fs \<Rightarrow> bool" where
  "fs_access p fs = (stat fs p \<noteq> None)"

text \<open>
  \<^verbatim>\<open>fs.mkdir(p, {recursive: true})\<close>: walks down from the root and creates every missing
  directory; a directory that exists is left alone; a file in the way is an error
  (\<^verbatim>\<open>EEXIST\<close> at \<open>p\<close> itself, \<^verbatim>\<open>ENOTDIR\<close> above it), and then the file system is
  as it was.
\<close>

fun mkdir_from :: "path \<Rightarrow> string list \<Rightarrow> fs \<Rightarrow> error + fs" where
  "mkdir_from pre [] fs = Inr fs"
| "mkdir_from pre (c # cs) fs =
     (case fs (pre @ [c]) of
        None \<Rightarrow> mkdir_from (pre @ [c]) cs (fs(pre @ [c] \<mapsto> DirE))
      | Some DirE \<Rightarrow> mkdir_from (pre @ [c]) cs fs
      | Some (FileE x) \<Rightarrow> Inl (if cs = [] then EEXIST else ENOTDIR))"

definition fs_mkdir :: "path \<Rightarrow> fs \<Rightarrow> error + fs" where
  "fs_mkdir p fs = mkdir_from [] p fs"

text \<open>Writing a file at \<open>dest\<close>: its parent must be a directory, and \<open>dest\<close> must not be one.\<close>

definition fs_writeFile :: "content \<Rightarrow> path \<Rightarrow> fs \<Rightarrow> error + fs" where
  "fs_writeFile c dest fs =
     (if dest = [] then Inl EISDIR
      else case stat fs (butlast dest) of
        None \<Rightarrow> Inl ENOENT
      | Some (FileE x) \<Rightarrow> Inl ENOTDIR
      | Some DirE \<Rightarrow>
          (case fs dest of
             Some DirE \<Rightarrow> Inl EISDIR
           | _ \<Rightarrow> Inr (fs(dest \<mapsto> FileE c))))"

text \<open>\<^verbatim>\<open>fs.copyFile(src, dest)\<close>: reads the source file, then writes its bytes at \<open>dest\<close>.\<close>

definition fs_copyFile :: "snode \<Rightarrow> path \<Rightarrow> fs \<Rightarrow> error + fs" where
  "fs_copyFile src dest fs =
     (case src of
        SDir r es \<Rightarrow> Inl EISDIR
      | SFile r c \<Rightarrow> (if \<not> r then Inl EACCES else fs_writeFile c dest fs))"

section \<open>scripts/copy-monaco.js: the functions\<close>

text \<open>What the script prints, as far as the properties speak about it.\<close>

datatype message =
    WarnCouldNotCopy path error
  | WarnCouldNotCopyDirectory path error
  | ErrorDistNotFound
  | InfoPresent string
  | ErrorMissing string
  | ErrorSomeMissing
  | InfoCopied
  | InfoCreatedVerification

text \<open>The two warnings of the copying functions.\<close>

definition warning :: "message \<Rightarrow> bool" where
  "warning m = (case m of WarnCouldNotCopy p e \<Rightarrow> True | WarnCouldNotCopyDirectory p e \<Rightarrow> True
     | _ \<Rightarrow> False)"

text \<open>\<^verbatim>\<open>ensureDir\<close>: an \<^verbatim>\<open>EEXIST\<close> from mkdir is swallowed, any other error rethrown.\<close>

definition ensureDir :: "path \<Rightarrow> fs \<Rightarrow> error + fs" where
  "ensureDir dir fs =
     (case fs_mkdir dir fs of
        Inl e \<Rightarrow> (if e \<noteq> EEXIST then Inl e else Inr fs)
      | Inr fs1 \<Rightarrow> Inr fs1)"

text \<open>The \<^verbatim>\<open>try\<close> block of \<^verbatim>\<open>copyFile\<close>, with the file system it leaves.\<close>

definition copyFile_try :: "snode \<Rightarrow> path \<Rightarrow> fs \<Rightarrow> (error + bool) \<times> fs" where
  "copyFile_try src dest fs =
     (case ensureDir (butlast dest) fs of
        Inl e \<Rightarrow> (Inl e, fs)
      | Inr fs1 \<Rightarrow>
          (case fs_copyFile src dest fs1 of
             Inl e \<Rightarrow> (Inl e, fs1)
           | Inr fs2 \<Rightarrow> (Inr True, fs2)))"

text \<open>\<^verbatim>\<open>copyFile\<close>: the \<^verbatim>\<open>catch\<close> clause warns and returns false.  The first argument is the
  source path, for the warning.\<close>

definition copyFile :: "path \<Rightarrow> snode \<Rightarrow> path \<Rightarrow> fs \<times> message list \<Rightarrow> (error + bool) \<times> fs \<times> message list" where
  "copyFile srcp src dest st =
     (case copyFile_try src dest (fst st) of
        (Inl e, fs1) \<Rightarrow> (Inr False, fs1, snd st @ [WarnCouldNotCopy srcp e])
      | (Inr b, fs1) \<Rightarrow> (Inr b, fs1, snd st))"

text \<open>
  \<^verbatim>\<open>copyDirectory\<close> and its \<^verbatim>\<open>for\<close> loop.  An awaited call that rejects inside the loop
  would leave the loop for the \<^verbatim>\<open>catch\<close> clause of the enclosing \<^verbatim>\<open>copyDirectory\<close>; the
  loop is written so.  \<^verbatim>\<open>fs.readdir\<close> fails on a file and on a directory that may not
  be read.
\<close>

fun copyDirectory :: "path \<Rightarrow> snode \<Rightarrow> path \<Rightarrow> fs \<times> message list \<Rightarrow> (error + unit) \<times> fs \<times> message list"
  and copy_entries :: "path \<Rightarrow> (string \<times> snode) list \<Rightarrow> path \<Rightarrow> fs \<times> message list \<Rightarrow> (error + unit) \<times> fs \<times> message list"
where
  "copyDirectory srcp (SFile r c) dest st =
     (case ensureDir dest (fst st) of
        Inl e \<Rightarrow> (Inr (), fst st, snd st @ [WarnCouldNotCopyDirectory srcp e])
      | Inr fs1 \<Rightarrow> (Inr (), fs1, snd st @ [WarnCouldNotCopyDirectory srcp ENOTDIR]))"
| "copyDirectory srcp (SDir r es) dest st =
     (case ensureDir dest (fst st) of
        Inl e \<Rightarrow> (Inr (), fst st, snd st @ [WarnCouldNotCopyDirectory srcp e])
      | Inr fs1 \<Rightarrow>
          (if \<not> r then (Inr (), fs1, snd st @ [WarnCouldNotCopyDirectory srcp EACCES])
           else case copy_entries srcp es dest (fs1, snd st) of
             (Inl e, fs2, lg2) \<Rightarrow> (Inr (), fs2, lg2 @ [WarnCouldNotCopyDirectory srcp e])
           | (Inr u, fs2, lg2) \<Rightarrow> (Inr (), fs2, lg2)))"
| "copy_entries srcp [] dest st = (Inr (), st)"
| "copy_entries srcp ((name, child) # rest) dest st =
     (if isDirectory child then
        (case copyDirectory (srcp @ [name]) child (dest @ [name]) st of
           (Inl e, st1) \<Rightarrow> (Inl e, st1)
         | (Inr u, st1) \<Rightarrow> copy_entries srcp rest dest st1)
      else
        (case copyFile (srcp @ [name]) child (dest @ [name]) st of
           (Inl e, st1) \<Rightarrow> (Inl e, st1)
         | (Inr b, st1) \<Rightarrow> copy_entries srcp rest dest st1))"

text \<open>\<^verbatim>\<open>path.join(dir, file)\<close> for a relative \<open>file\<close> written with slashes.\<close>

fun split_slash :: "string \<Rightarrow> string \<Rightarrow> string list" where
  "split_slash acc [] = (if acc = [] then [] else [acc])"
| "split_slash acc (c # cs) =
     (if c = CHR ''/'' then (if acc = [] then [] else [acc]) @ split_slash [] cs
      else split_slash (acc @ [c]) cs)"

definition path_join :: "path \<Rightarrow> string \<Rightarrow> path" where
  "path_join dir file = dir @ split_slash [] file"

definition monacoDistPath :: path where
  "monacoDistPath = [''node_modules'', ''modern-monaco'', ''dist'']"

definition publicMonacoPath :: path where
  "publicMonacoPath = [''public'', ''monaco'']"

definition criticalFiles :: "string list" where
  "criticalFiles =
     [''index.mjs'',
      ''editor-core.mjs'',
      ''editor-worker.mjs'',
      ''lsp/typescript/worker.mjs'',
      ''lsp/html/worker.mjs'',
      ''lsp/css/worker.mjs'',
      ''lsp/json/worker.mjs'',
      ''onig.wasm'']"

text \<open>Where the manifest is written.\<close>

definition manifest_path :: path where
  "manifest_path = path_join publicMonacoPath ''verification.json''"

text \<open>The verification loop: \<^verbatim>\<open>allFilesPresent\<close> and the console are carried along.\<close>

fun verify_files :: "fs \<Rightarrow> string list \<Rightarrow> bool \<times> message list \<Rightarrow> bool \<times> message list" where
  "verify_files fs [] acc = acc"
| "verify_files fs (file # rest) (allFilesPresent, lg) =
     (if fs_access (path_join publicMonacoPath file) fs
      then verify_files fs rest (allFilesPresent, lg @ [InfoPresent file])
      else verify_files fs rest (False, lg @ [ErrorMissing file]))"

text \<open>
  \<^verbatim>\<open>copyModernMonaco\<close>.  \<open>now\<close> is \<^verbatim>\<open>new Date().toISOString()\<close>; \<open>dist\<close> is what is found
  at \<^verbatim>\<open>monacoDistPath\<close>, if anything.  The result says how the call ends, and gives the
  file system and the console it leaves.
\<close>

definition copyModernMonaco :: "string \<Rightarrow> snode option \<Rightarrow> fs \<Rightarrow> settle \<times> fs \<times> message list" where
  "copyModernMonaco now dist fs =
     (case dist of
        None \<Rightarrow> (ProcessExit 1, fs, [ErrorDistNotFound])
      | Some src \<Rightarrow>
          (case copyDirectory monacoDistPath src publicMonacoPath (fs, []) of
             (Inl e, fs1, lg1) \<Rightarrow> (Rejected e, fs1, lg1)
           | (Inr u, fs1, lg1) \<Rightarrow>
               (case verify_files fs1 criticalFiles (True, lg1) of
                  (allFilesPresent, lg2) \<Rightarrow>
                    if \<not> allFilesPresent then (ProcessExit 1, fs1, lg2 @ [ErrorSomeMissing])
                    else
                      (case fs_writeFile
                              (Json \<lparr>timestamp = now, files = criticalFiles, status = ''ready''\<rparr>)
                              (path_join publicMonacoPath ''verification.json'') fs1 of
                         Inl e \<Rightarrow> (Rejected e, fs1, lg2 @ [InfoCopied])
                       | Inr fs2 \<Rightarrow> (Resolved, fs2, lg2 @ [InfoCopied, InfoCreatedVerification])))))"

text \<open>The script run directly: a rejection is caught and ends the process with status 1;
  a call that returns lets the process end with status 0.\<close>

definition copy_monaco_script :: "string \<Rightarrow> snode option \<Rightarrow> fs \<Rightarrow> nat \<times> fs \<times> message list" where
  "copy_monaco_script now dist fs =
     (case copyModernMonaco now dist fs of
        (Resolved, fs1, lg) \<Rightarrow> (0, fs1, lg)
      | (Rejected e, fs1, lg) \<Rightarrow> (1, fs1, lg)
      | (ProcessExit c, fs1, lg) \<Rightarrow> (c, fs1, lg))"

section \<open>The source tree as a map\<close>

text \<open>What the source tree holds at a path below its root; of two entries with one name in
  a directory (which no file system has) the first is found.\<close>

fun src_lookup :: "snode \<Rightarrow> path \<Rightarrow> entry option"
  and entries_lookup :: "(string \<times> snode) list \<Rightarrow> string \<Rightarrow> path \<Rightarrow> entry option"
where
  "src_lookup (SFile r c) p = (if p = [] then Some (FileE c) else None)"
| "src_lookup (SDir r es) [] = Some DirE"
| "src_lookup (SDir r es) (x # xs) = entries_lookup es x xs"
| "entries_lookup [] x xs = None"
| "entries_lookup ((name, child) # rest) x xs =
     (if name = x then src_lookup child xs else entries_lookup rest x xs)"

definition look_entries :: "(string \<times> snode) list \<Rightarrow> path \<Rightarrow> entry option" where
  "look_entries es q = (case q of [] \<Rightarrow> None | x # xs \<Rightarrow> entries_lookup es x xs)"

text \<open>A source tree is well formed when every node of it can be read and the names in each
  directory are distinct.\<close>

fun well_formed :: "snode \<Rightarrow> bool"
  and well_formed_entries :: "(string \<times> snode) list \<Rightarrow> bool"
where
  "well_formed (SFile r c) = r"
| "well_formed (SDir r es) = (r \<and> distinct (map fst es) \<and> well_formed_entries es)"
| "well_formed_entries [] = True"
| "well_formed_entries ((name, child) # rest) = (well_formed child \<and> well_formed_entries rest)"

text \<open>The number of files of a tree, and their paths.\<close>

fun count_files :: "snode \<Rightarrow> nat"
  and count_files_entries :: "(string \<times> snode) list \<Rightarrow> nat"
where
  "count_files (SFile r c) = 1"
| "count_files (SDir r es) = count_files_entries es"
| "count_files_entries [] = 0"
| "count_files_entries ((name, child) # rest) = count_files child + count_files_entries rest"

fun file_paths :: "snode \<Rightarrow> path list"
  and file_paths_entries :: "(string \<times> snode) list \<Rightarrow> path list"
where
  "file_paths (SFile r c) = [Nil]"
| "file_paths (SDir r es) = file_paths_entries es"
| "file_paths_entries [] = []"
| "file_paths_entries ((name, child) # rest) =
     map ((#) name) (file_paths child) @ file_paths_entries rest"

text \<open>\<open>overlay look d fs\<close> is \<open>fs\<close> with, below \<open>d\<close>, every entry of \<open>look\<close> written over it.\<close>

definition overlay :: "(path \<Rightarrow> entry option) \<Rightarrow> path \<Rightarrow> fs \<Rightarrow> fs" where
  "overlay look d fs =
     (\<lambda>p. if prefix d p \<and> look (drop (length d) p) \<noteq> None
          then look (drop (length d) p) else fs p)"

text \<open>\<open>d\<close> and all its ancestors are directories.\<close>

definition dirs_to :: "path \<Rightarrow> fs \<Rightarrow> bool" where
  "dirs_to d fs = (\<forall>p. p \<noteq> [] \<and> prefix p d \<longrightarrow> fs p = Some DirE)"

text \<open>Nothing that \<open>look\<close> holds meets an entry of the other kind below \<open>d\<close>: no file
  where a directory is to be made, no directory where a file is to be written.\<close>

definition compat :: "(path \<Rightarrow> entry option) \<Rightarrow> path \<Rightarrow> fs \<Rightarrow> bool" where
  "compat look d fs =
     (\<forall>q e. look q = Some e \<longrightarrow> fs (d @ q) \<noteq> None \<longrightarrow> (e = DirE) = (fs (d @ q) = Some DirE))"

text \<open>\<open>fs\<close> after \<open>d\<close> and its ancestors have been made directories.\<close>

definition with_dirs :: "path \<Rightarrow> fs \<Rightarrow> fs" where
  "with_dirs d fs = (\<lambda>p. if p \<noteq> [] \<and> prefix p d then Some DirE else fs p)"

text \<open>An empty destination: nothing exists below \<open>d\<close>, and \<open>d\<close> and its ancestors are
  directories or do not exist yet.\<close>

definition empty_destination :: "path \<Rightarrow> fs \<Rightarrow> bool" where
  "empty_destination d fs =
     (d \<noteq> [] \<and> (\<forall>p. p \<noteq> [] \<and> prefix p d \<longrightarrow> fs p = None \<or> fs p = Some DirE)
      \<and> (\<forall>q. q \<noteq> [] \<longrightarrow> fs (d @ q) = None))"

section \<open>server.js\<close>

text \<open>
  The server answers one request at a time and keeps no state.  The model is of a GET
  request: its path (\<^verbatim>\<open>req.path\<close>) and whether \<^verbatim>\<open>req.accepts('html')\<close> is truthy.
\<close>

record request =
  req_path :: string
  req_accepts_html :: bool

text \<open>
  What is on disk, as \<^verbatim>\<open>express.static\<close> and \<^verbatim>\<open>res.sendFile\<close> see it: at a file-system
  path a regular file with its bytes, a directory, or nothing.  The environment also
  gives the content type that the library derives from a file's extension when none has
  been set, the time, and the port.
\<close>

datatype dnode = RegularFile string | Directory

record env =
  env_disk :: "string \<Rightarrow> dnode option"
  env_mime_type :: "string \<Rightarrow> string"
  env_now :: string
  env_port :: string

datatype body =
    FileBody string string
  | Text string
  | HealthJson string
  | DebugFilesJson "(string \<times> string) list"
  | ErrorJson string
  | RedirectTo string
  | CannotGet string

type_synonym headers = "string \<Rightarrow> string option"

record response =
  res_status :: nat
  res_headers :: headers
  res_body :: body

definition endsWith :: "string \<Rightarrow> string \<Rightarrow> bool" where
  "endsWith s t = suffix t s"

definition includes_dot :: "string \<Rightarrow> bool" where
  "includes_dot s = (CHR ''.'' \<in> set s)"

definition lower_char :: "char \<Rightarrow> char" where
  "lower_char c =
     (case map_of (zip ''ABCDEFGHIJKLMNOPQRSTUVWXYZ'' ''abcdefghijklmnopqrstuvwxyz'') c of
        Some l \<Rightarrow> l
      | None \<Rightarrow> c)"

definition toLowerCase :: "string \<Rightarrow> string" where
  "toLowerCase s = map lower_char s"

definition public_root :: string where
  "public_root = ''public''"

definition dist_root :: string where
  "dist_root = ''../../dist''"

text \<open>The first middleware of server.js that sets headers (after \<^verbatim>\<open>compression\<close> and
  \<^verbatim>\<open>cors\<close>, whose own headers are left out).\<close>

definition mime_middleware :: "string \<Rightarrow> headers \<Rightarrow> headers" where
  "mime_middleware p h =
     (let h1 = (if endsWith p ''.mjs'' then h(''Content-Type'' \<mapsto> ''application/javascript'') else h);
          h2 = (if endsWith p ''.wasm'' then h1(''Content-Type'' \<mapsto> ''application/wasm'') else h1);
          h3 = (if endsWith p ''.mjs'' \<or> endsWith p ''.wasm'' \<or> endsWith p ''.js''
                   \<or> endsWith p ''.css'' \<or> endsWith p ''.html''
                then h2(''Cache-Control'' \<mapsto> ''public, max-age=31536000'') else h2)
      in h3(''Cross-Origin-Embedder-Policy'' \<mapsto> ''require-corp'',
            ''Cross-Origin-Opener-Policy'' \<mapsto> ''same-origin''))"

text \<open>The \<^verbatim>\<open>setHeaders\<close> callback given to both \<^verbatim>\<open>express.static\<close> middlewares.\<close>

definition setHeaders :: "string \<Rightarrow> headers \<Rightarrow> headers" where
  "setHeaders filePath h =
     (let h1 = (if endsWith filePath ''.mjs'' then h(''Content-Type'' \<mapsto> ''application/javascript'') else h)
      in if endsWith filePath ''.wasm'' then h1(''Content-Type'' \<mapsto> ''application/wasm'') else h1)"

text \<open>
  \<^verbatim>\<open>express.static(root, {setHeaders})\<close> with the library's defaults.  For the path below
  its mount point it finds a regular file (for a path that ends in a slash, the
  \<^verbatim>\<open>index.html\<close> of that directory), a directory (and redirects to the path with a
  slash), or nothing (and calls \<^verbatim>\<open>next()\<close>).  A file is sent with status 200 after
  \<^verbatim>\<open>setHeaders\<close> has run; the library then sets \<^verbatim>\<open>Content-Type\<close> from the extension only
  if the header is still unset.  Conditional and range requests are not modelled.
\<close>

datatype found = Served string string | Redirected | Passed

definition static_find :: "(string \<Rightarrow> dnode option) \<Rightarrow> string \<Rightarrow> string \<Rightarrow> found" where
  "static_find d root sub =
     (if endsWith sub ''/'' then
        (case d (root @ sub @ ''index.html'') of
           Some (RegularFile b) \<Rightarrow> Served (root @ sub @ ''index.html'') b
         | _ \<Rightarrow> Passed)
      else
        (case d (root @ sub) of
           Some (RegularFile b) \<Rightarrow> Served (root @ sub) b
         | Some Directory \<Rightarrow> Redirected
         | None \<Rightarrow> Passed))"

definition send_type :: "env \<Rightarrow> string \<Rightarrow> headers \<Rightarrow> headers" where
  "send_type e filePath h =
     (if h ''Content-Type'' = None then h(''Content-Type'' \<mapsto> env_mime_type e filePath) else h)"

definition express_static :: "env \<Rightarrow> string \<Rightarrow> string \<Rightarrow> string \<Rightarrow> headers \<Rightarrow> response option" where
  "express_static e root url sub h =
     (case static_find (env_disk e) root sub of
        Served filePath b \<Rightarrow>
          Some \<lparr>res_status = 200, res_headers = send_type e filePath (setHeaders filePath h),
                res_body = FileBody filePath b\<rparr>
      | Redirected \<Rightarrow>
          Some \<lparr>res_status = 301,
                res_headers = h(''Content-Type'' \<mapsto> ''text/html; charset=UTF-8'',
                                ''Location'' \<mapsto> url @ ''/''),
                res_body = RedirectTo (url @ ''/'')\<rparr>
      | Passed \<Rightarrow> None)"

text \<open>
  Route matching with Express's defaults: letter case is ignored and one trailing slash
  is allowed.  \<^verbatim>\<open>app.use('/monaco', ...)\<close> matches the path \<^verbatim>\<open>/monaco\<close> and every path
  below it, and hands the rest of the path to the middleware.
\<close>

definition route :: "string \<Rightarrow> string \<Rightarrow> bool" where
  "route pat p = (toLowerCase p = pat \<or> toLowerCase p = pat @ ''/'')"

definition route_star_ext :: "string \<Rightarrow> string \<Rightarrow> bool" where
  "route_star_ext ext p = (endsWith (toLowerCase p) ext \<or> endsWith (toLowerCase p) (ext @ ''/''))"

definition mount :: "string \<Rightarrow> string \<Rightarrow> string option" where
  "mount pat p =
     (if toLowerCase (take (length pat) p) = pat
         \<and> (length p = length pat \<or> p ! length pat = CHR ''/'')
      then Some (drop (length pat) p) else None)"

text \<open>\<^verbatim>\<open>res.send(text)\<close> and \<^verbatim>\<open>res.json(value)\<close>: a content type that is already set keeps
  its type and gets the charset; otherwise the library's default is set.\<close>

definition send_headers :: "string \<Rightarrow> headers \<Rightarrow> headers" where
  "send_headers dflt h =
     (case h ''Content-Type'' of
        None \<Rightarrow> h(''Content-Type'' \<mapsto> dflt @ ''; charset=utf-8'')
      | Some t \<Rightarrow> h(''Content-Type'' \<mapsto> t @ ''; charset=utf-8''))"

definition debug_files :: "string list" where
  "debug_files =
     [''/monaco/index.mjs'',
      ''/monaco/editor-core.mjs'',
      ''/monaco/lsp/index.mjs'',
      ''/monaco/lsp/typescript/worker.mjs'',
      ''/monaco/lsp/html/worker.mjs'',
      ''/monaco/lsp/css/worker.mjs'',
      ''/monaco/lsp/json/worker.mjs'',
      ''/monaco/onig.wasm'']"

text \<open>
  The last route, \<^verbatim>\<open>app.get('*', ...)\<close>.  \<^verbatim>\<open>res.sendFile\<close> sends a regular file with
  status 200; when the file is missing it passes the error on, and the error-handling
  middleware at the end of server.js answers 500; on a directory it calls \<^verbatim>\<open>next()\<close>, and
  Express itself answers 404.
\<close>

definition index_html :: string where
  "index_html = public_root @ ''/index.html''"

definition fallback :: "env \<Rightarrow> request \<Rightarrow> headers \<Rightarrow> response" where
  "fallback e r h =
     (if req_accepts_html r \<and> \<not> includes_dot (req_path r) then
        (case env_disk e index_html of
           Some (RegularFile b) \<Rightarrow>
             \<lparr>res_status = 200, res_headers = send_type e index_html h,
              res_body = FileBody index_html b\<rparr>
         | Some Directory \<Rightarrow>
             \<lparr>res_status = 404, res_headers = send_headers ''text/html'' h,
              res_body = CannotGet (req_path r)\<rparr>
         | None \<Rightarrow>
             \<lparr>res_status = 500, res_headers = send_headers ''application/json'' h,
              res_body = ErrorJson ''Internal server error''\<rparr>)
      else \<lparr>res_status = 404, res_headers = send_headers ''text/html'' h,
            res_body = Text ''File not found''\<rparr>)"

text \<open>The routes of server.js after the static middlewares, in their order.\<close>

definition routes :: "env \<Rightarrow> request \<Rightarrow> headers \<Rightarrow> response" where
  "routes e r h =
     (if route ''/health'' (req_path r) then
        \<lparr>res_status = 200, res_headers = send_headers ''application/json'' h,
         res_body = HealthJson (env_now e)\<rparr>
      else if route ''/debug/files'' (req_path r) then
        \<lparr>res_status = 200, res_headers = send_headers ''application/json'' h,
         res_body = DebugFilesJson (map (\<lambda>file. (file, ''http://localhost:'' @ env_port e @ file)) debug_files)\<rparr>
      else if route_star_ext ''.js'' (req_path r) then
        \<lparr>res_status = 404, res_headers = send_headers ''text/html'' h,
         res_body = Text ''JavaScript file not found''\<rparr>
      else if route_star_ext ''.mjs'' (req_path r) then
        \<lparr>res_status = 404, res_headers = send_headers ''text/html'' h,
         res_body = Text ''Module file not found''\<rparr>
      else fallback e r h)"

text \<open>The whole chain for a GET request.\<close>

definition handle :: "env \<Rightarrow> request \<Rightarrow> response" where
  "handle e r =
     (let p = req_path r; h = mime_middleware p Map.empty in
      case express_static e public_root p p h of
        Some res \<Rightarrow> res
      | None \<Rightarrow>
          (case (case mount ''/monaco'' p of
                   None \<Rightarrow> None
                 | Some sub \<Rightarrow> express_static e dist_root p sub h) of
             Some res \<Rightarrow> res
           | None \<Rightarrow> routes e r h))"

text \<open>What the two static middlewares do with a path, taken together.\<close>

definition static_chain :: "env \<Rightarrow> string \<Rightarrow> found" where
  "static_chain e p =
     (case static_find (env_disk e) public_root p of
        Passed \<Rightarrow>
          (case mount ''/monaco'' p of
             None \<Rightarrow> Passed
           | Some sub \<Rightarrow> static_find (env_disk e) dist_root sub)
      | f \<Rightarrow> f)"

section \<open>The setup tester: class SetupTester\<close>

text \<open>
  The three lists of \<^verbatim>\<open>SetupTester\<close>, and the URLs that \<^verbatim>\<open>http.get\<close> has been called
  with (which the code does not hold).
\<close>

record tester =
  errors :: "string list"
  warnings :: "string list"
  successes :: "string list"
  requests :: "string list"

definition SetupTester :: tester where
  "SetupTester = \<lparr>errors = [], warnings = [], successes = [], requests = []\<rparr>"

text \<open>\<^verbatim>\<open>log(message, type)\<close>: every type prints; three of them also record the message.\<close>

definition log :: "string \<Rightarrow> string \<Rightarrow> tester \<Rightarrow> tester" where
  "log message type t =
     (if type = ''success'' then t\<lparr>successes := successes t @ [message]\<rparr>
      else if type = ''error'' then t\<lparr>errors := errors t @ [message]\<rparr>
      else if type = ''warning'' then t\<lparr>warnings := warnings t @ [message]\<rparr>
      else t)"

text \<open>
  What the environment answers: \<^verbatim>\<open>fs.access\<close>, \<^verbatim>\<open>fs.readFile\<close> (the message of the error,
  or the text), the first event of an HTTP request, and \<^verbatim>\<open>JSON.parse\<close>.  Paths are written
  relative to \<^verbatim>\<open>projectRoot\<close>.
\<close>

datatype http_outcome = Responded nat | RequestError string | TimedOut

datatype json =
    JNull | JBool bool | JNumber int | JString string
  | JArray "json list" | JObject "(string \<times> json) list"

record test_env =
  access :: "string \<Rightarrow> error + unit"
  readFile :: "string \<Rightarrow> string + string"
  http_get :: "string \<Rightarrow> http_outcome"
  json_parse :: "string \<Rightarrow> string + json"

definition testFileExists :: "test_env \<Rightarrow> string \<Rightarrow> string \<Rightarrow> tester \<Rightarrow> (error + bool) \<times> tester" where
  "testFileExists e filePath description t =
     (case access e filePath of
        Inr u \<Rightarrow> (Inr True, log (description @ '' exists'') ''success'' t)
      | Inl err \<Rightarrow> (Inr False, log (description @ '' missing: '' @ filePath) ''error'' t))"

text \<open>\<^verbatim>\<open>content.includes(expectedContent)\<close> is \<open>sublist expectedContent content\<close>.\<close>

definition testFileContent :: "test_env \<Rightarrow> string \<Rightarrow> string \<Rightarrow> string \<Rightarrow> tester \<Rightarrow> (error + bool) \<times> tester" where
  "testFileContent e filePath description expectedContent t =
     (case readFile e filePath of
        Inr content \<Rightarrow>
          (if sublist expectedContent content
           then (Inr True, log (description @ '' contains expected content'') ''success'' t)
           else (Inr False,
                 log (description @ '' missing expected content: '' @ [CHR 0x22] @ expectedContent @ [CHR 0x22])
                   ''warning'' t))
      | Inl msg \<Rightarrow> (Inr False, log (''Cannot read '' @ description @ '': '' @ msg) ''error'' t))"

text \<open>A status code in decimal, as the template string prints it.\<close>

fun decimal :: "nat \<Rightarrow> string" where
  "decimal n = (if n < 10 then [char_of (48 + n)] else decimal (n div 10) @ [char_of (48 + n mod 10)])"

text \<open>
  \<^verbatim>\<open>testHttpEndpoint\<close>: one call of \<^verbatim>\<open>http.get\<close>; the promise is resolved by the callback
  of the first event (a response, an error, the 5000 ms timeout) and is never rejected.
  Events of the same request after that one are not modelled.
\<close>

definition testHttpEndpoint :: "test_env \<Rightarrow> string \<Rightarrow> string \<Rightarrow> tester \<Rightarrow> (error + bool) \<times> tester" where
  "testHttpEndpoint e url description t =
     (let t1 = t\<lparr>requests := requests t @ [url]\<rparr> in
      case http_get e url of
        Responded statusCode \<Rightarrow>
          (if statusCode = 200
           then (Inr True, log (description @ '' responds correctly ('' @ decimal statusCode @ '')'') ''success'' t1)
           else (Inr False, log (description @ '' returns '' @ decimal statusCode) ''warning'' t1))
      | RequestError msg \<Rightarrow> (Inr False, log (description @ '' not accessible: '' @ msg) ''error'' t1)
      | TimedOut \<Rightarrow> (Inr False, log (description @ '' timeout'') ''error'' t1))"

text \<open>The awaited calls of \<^verbatim>\<open>runTests\<close>, tests 1 to 6, in their order.  A call that
  rejected would end \<^verbatim>\<open>runTests\<close> there.  The calls of \<^verbatim>\<open>log\<close> with type \<^verbatim>\<open>info\<close>
  between them only print.\<close>

datatype check =
    FileExists string string
  | FileContent string string string
  | HttpEndpoint string string

definition run_check :: "test_env \<Rightarrow> check \<Rightarrow> tester \<Rightarrow> (error + bool) \<times> tester" where
  "run_check e c t =
     (case c of
        FileExists filePath description \<Rightarrow> testFileExists e filePath description t
      | FileContent filePath description expectedContent \<Rightarrow>
          testFileContent e filePath description expectedContent t
      | HttpEndpoint url description \<Rightarrow> testHttpEndpoint e url description t)"

fun run_checks :: "test_env \<Rightarrow> check list \<Rightarrow> tester \<Rightarrow> (error + unit) \<times> tester" where
  "run_checks e [] t = (Inr (), t)"
| "run_checks e (c # cs) t =
     (case run_check e c t of
        (Inl err, t1) \<Rightarrow> (Inl err, t1)
      | (Inr b, t1) \<Rightarrow> run_checks e cs t1)"

definition monacoFiles :: "string list" where
  "monacoFiles =
     [''index.mjs'',
      ''editor-core.mjs'',
      ''editor-worker-main.mjs'',
      ''lsp/index.mjs'',
      ''lsp/typescript/worker.mjs'',
      ''lsp/html/worker.mjs'',
      ''lsp/css/worker.mjs'',
      ''lsp/json/worker.mjs'',
      ''onig.wasm'']"

definition checks :: "check list" where
  "checks =
     [FileExists ''package.json'' ''package.json'',
      FileExists ''server.js'' ''server.js'',
      FileExists ''src/index.html'' ''src/index.html'',
      FileExists ''src/app.js'' ''src/app.js'',
      FileExists ''public/index.html'' ''Built HTML file'',
      FileExists ''public/dist/app.js'' ''Built JavaScript bundle'']
     @ map (\<lambda>file. FileExists (''public/monaco/'' @ file) (''Monaco file: '' @ file)) monacoFiles
     @ [FileContent ''public/index.html'' ''Import map in HTML''
          ([CHR 0x22] @ ''modern-monaco'' @ [CHR 0x22] @ '': '' @ [CHR 0x22] @ ''/monaco/index.mjs'' @ [CHR 0x22]),
        FileContent ''server.js'' ''Server MIME type configuration'' ''application/javascript'',
        FileContent ''server.js'' ''Server CORS configuration'' ''cors'',
        HttpEndpoint ''http://localhost:3000/health'' ''Health endpoint'',
        HttpEndpoint ''http://localhost:3000/monaco/index.mjs'' ''Monaco main file'',
        HttpEndpoint ''http://localhost:3000/monaco/editor-worker-main.mjs'' ''Editor worker'']"

text \<open>
  Test 7.  Reading a property of \<^verbatim>\<open>null\<close> throws; of any other value that
  \<^verbatim>\<open>JSON.parse\<close> returns it gives the value of the key in an object (the last one, if the
  text had the key twice) and \<^verbatim>\<open>undefined\<close> otherwise, for the keys used here.
\<close>

fun truthy :: "json \<Rightarrow> bool" where
  "truthy JNull = False"
| "truthy (JBool b) = b"
| "truthy (JNumber n) = (n \<noteq> 0)"
| "truthy (JString s) = (s \<noteq> [])"
| "truthy (JArray xs) = True"
| "truthy (JObject kvs) = True"

fun get_prop :: "json \<Rightarrow> string \<Rightarrow> string + json option" where
  "get_prop JNull k = Inl ''Cannot read properties of null''"
| "get_prop (JObject kvs) k = Inr (map_of (rev kvs) k)"
| "get_prop v k = Inr None"

text \<open>\<^verbatim>\<open>packageJson.scripts && packageJson.scripts[script]\<close>, as a condition.\<close>

definition script_defined :: "json \<Rightarrow> string \<Rightarrow> string + bool" where
  "script_defined packageJson script =
     (case get_prop packageJson ''scripts'' of
        Inl msg \<Rightarrow> Inl msg
      | Inr None \<Rightarrow> Inr False
      | Inr (Some scripts) \<Rightarrow>
          (if \<not> truthy scripts then Inr False
           else case get_prop scripts script of
             Inl msg \<Rightarrow> Inl msg
           | Inr None \<Rightarrow> Inr False
           | Inr (Some v) \<Rightarrow> Inr (truthy v)))"

definition requiredScripts :: "string list" where
  "requiredScripts = [''build'', ''dev'', ''start'', ''setup'', ''copy-monaco'']"

fun scripts_loop :: "json \<Rightarrow> string list \<Rightarrow> tester \<Rightarrow> (string + unit) \<times> tester" where
  "scripts_loop packageJson [] t = (Inr (), t)"
| "scripts_loop packageJson (script # rest) t =
     (case script_defined packageJson script of
        Inl msg \<Rightarrow> (Inl msg, t)
      | Inr True \<Rightarrow>
          scripts_loop packageJson rest
            (log (''Script '' @ [CHR 0x22] @ script @ [CHR 0x22] @ '' defined'') ''success'' t)
      | Inr False \<Rightarrow>
          scripts_loop packageJson rest
            (log (''Script '' @ [CHR 0x22] @ script @ [CHR 0x22] @ '' missing'') ''error'' t))"

definition test_scripts_try :: "test_env \<Rightarrow> tester \<Rightarrow> (string + unit) \<times> tester" where
  "test_scripts_try e t =
     (case readFile e ''package.json'' of
        Inl msg \<Rightarrow> (Inl msg, t)
      | Inr raw \<Rightarrow>
          (case json_parse e raw of
             Inl msg \<Rightarrow> (Inl msg, t)
           | Inr packageJson \<Rightarrow> scripts_loop packageJson requiredScripts t))"

definition test_scripts :: "test_env \<Rightarrow> tester \<Rightarrow> tester" where
  "test_scripts e t =
     (case test_scripts_try e t of
        (Inl msg, t1) \<Rightarrow> log (''Cannot read package.json: '' @ msg) ''error'' t1
      | (Inr u, t1) \<Rightarrow> t1)"

text \<open>\<^verbatim>\<open>generateReport\<close>: the three counts that it prints.\<close>

record report =
  n_successes :: nat
  n_warnings :: nat
  n_errors :: nat

definition generateReport :: "tester \<Rightarrow> report" where
  "generateReport t =
     \<lparr>n_successes = length (successes t), n_warnings = length (warnings t),
      n_errors = length (errors t)\<rparr>"

definition runTests :: "test_env \<Rightarrow> tester \<Rightarrow> (error + report) \<times> tester" where
  "runTests e t =
     (case run_checks e checks t of
        (Inl err, t1) \<Rightarrow> (Inl err, t1)
      | (Inr u, t1) \<Rightarrow> (let t2 = test_scripts e t1 in (Inr (generateReport t2), t2)))"

text \<open>How many outcomes a tester has recorded.\<close>

definition recorded :: "tester \<Rightarrow> nat" where
  "recorded t = length (successes t) + length (warnings t) + length (errors t)"

text \<open>The URLs of the probes among a list of checks.\<close>

definition probe_urls :: "check list \<Rightarrow> string list" where
  "probe_urls cs = concat (map (\<lambda>c. case c of HttpEndpoint url description \<Rightarrow> [url] | _ \<Rightarrow> []) cs)"

section \<open>Concrete inputs\<close>

text \<open>File systems, source trees and environments at which the properties below are
  evaluated.\<close>

text \<open>A destination in which a directory sits where \<^verbatim>\<open>index.mjs\<close> is to be written.\<close>

definition fs_blocked :: fs where
  "fs_blocked = Map.empty([''public''] \<mapsto> DirE, [''public'', ''monaco''] \<mapsto> DirE,
     [''public'', ''monaco'', ''index.mjs''] \<mapsto> DirE)"

text \<open>A distribution that lacks all critical files but one, and one that has them all.\<close>

definition dist_partial :: snode where
  "dist_partial = SDir True [(''index.mjs'', SFile True (Bytes ''export {}''))]"

definition dist_full :: snode where
  "dist_full = SDir True
     [(''editor-core.mjs'', SFile True (Bytes ''core'')),
      (''editor-worker.mjs'', SFile True (Bytes ''worker'')),
      (''index.mjs'', SFile True (Bytes ''export {}'')),
      (''lsp'', SDir True
         [(''css'', SDir True [(''worker.mjs'', SFile True (Bytes ''css''))]),
          (''html'', SDir True [(''worker.mjs'', SFile True (Bytes ''html''))]),
          (''json'', SDir True [(''worker.mjs'', SFile True (Bytes ''json''))]),
          (''typescript'', SDir True [(''worker.mjs'', SFile True (Bytes ''ts''))])]),
      (''onig.wasm'', SFile True (Bytes ''wasm''))]"

text \<open>What copying each of the two into an empty project leaves.\<close>

definition fs_partial :: fs where
  "fs_partial = Map.empty([''public''] \<mapsto> DirE, [''public'', ''monaco''] \<mapsto> DirE,
     [''public'', ''monaco'', ''index.mjs''] \<mapsto> FileE (Bytes ''export {}''))"

definition fs_full :: fs where
  "fs_full = fst (snd (copyDirectory monacoDistPath dist_full publicMonacoPath (Map.empty, [])))"

text \<open>A disk with the default document, one module under \<^verbatim>\<open>public\<close> and one file under the
  root of the \<^verbatim>\<open>/monaco\<close> mount.\<close>

definition env0 :: env where
  "env0 = \<lparr>env_disk = [''public/index.html'' \<mapsto> RegularFile ''<html>'',
                    ''public/monaco/index.mjs'' \<mapsto> RegularFile ''export {}'',
                    ''../../dist/onig.wasm'' \<mapsto> RegularFile ''wasm''],
            env_mime_type = (\<lambda>f. ''application/octet-stream''), env_now = ''2025-01-01T00:00:00.000Z'',
            env_port = ''3000''\<rparr>"

text \<open>A project in which nothing has been built and no server runs.\<close>

definition env_down :: test_env where
  "env_down = \<lparr>access = (\<lambda>p. Inl ENOENT), readFile = (\<lambda>p. Inl ''ENOENT''),
     http_get = (\<lambda>u. if u = ''http://localhost:3000/health'' then TimedOut
                      else RequestError ''connect ECONNREFUSED''),
     json_parse = (\<lambda>s. Inl ''Unexpected end of JSON input'')\<rparr>"

section \<open>Properties of the watch-rebuild loop\<close>

lemma buildProject_never_rejects: "buildProject env \<noteq> Rejected e"
  by (simp add: buildProject_def split: sum.splits)

lemma run_Nil: "run s [] = s"
  by (simp add: run_def)

lemma run_Cons: "run s (ev # evs) = run (step s ev) evs"
  by (simp add: run_def)

lemma run_append: "run s (xs @ ys) = run (run s xs) ys"
  by (simp add: run_def)

lemma step_Change_building:
  "isBuilding s \<Longrightarrow> exit_code s = None \<Longrightarrow> step s Change = s\<lparr>buildQueue := True, stale := True\<rparr>"
  by (simp add: step_def build_call_def)

lemma run_burst_building:
  "isBuilding s \<Longrightarrow> exit_code s = None \<Longrightarrow> 0 < K \<Longrightarrow>
   run s (replicate K Change) = s\<lparr>buildQueue := True, stale := True\<rparr>"
proof (induction K arbitrary: s)
  case 0
  then show ?case by simp
next
  case (Suc K)
  let ?s1 = "s\<lparr>buildQueue := True, stale := True\<rparr>"
  have first: "step s Change = ?s1"
    using Suc.prems by (simp add: step_Change_building)
  show ?case
  proof (cases K)
    case 0
    then show ?thesis using first by (simp add: run_Cons run_Nil)
  next
    case (Suc k)
    then have "run ?s1 (replicate K Change) = ?s1\<lparr>buildQueue := True, stale := True\<rparr>"
      using Suc.IH [of ?s1] Suc.prems by simp
    then show ?thesis using first by (simp add: run_Cons)
  qed
qed

lemma run_burst_then_build_ends:
  assumes "isBuilding s" and "exit_code s = None" and "0 < K" and "buildProject env1 = Resolved"
  shows "run s (replicate K Change @ [BuildProjectEnds env1]) =
           s\<lparr>isBuilding := False, buildQueue := False, timers := timers s + 1, stale := True\<rparr>"
  using assms
  by (simp add: run_append run_burst_building run_Cons run_Nil step_def build_resume_def
      build_finally_def)

lemma run_burst_then_timer:
  assumes "isBuilding s" and "exit_code s = None" and "0 < K" and "buildProject env1 = Resolved"
  shows "run s (replicate K Change @ [BuildProjectEnds env1, TimerFires]) =
           s\<lparr>isBuilding := True, buildQueue := False, timers := timers s,
             builds_started := builds_started s + 1, stale := False\<rparr>"
proof -
  have "run s (replicate K Change @ [BuildProjectEnds env1, TimerFires]) =
        run (run s (replicate K Change @ [BuildProjectEnds env1])) [TimerFires]"
    by (simp add: run_append [symmetric])
  then show ?thesis
    using assms by (simp add: run_burst_then_build_ends run_Cons run_Nil step_def build_call_def)
qed

lemma run_burst_then_rebuild:
  assumes "isBuilding s" and "exit_code s = None" and "0 < K"
    and "buildProject env1 = Resolved" and "buildProject env2 = Resolved"
  shows "run s (replicate K Change @ [BuildProjectEnds env1, TimerFires, BuildProjectEnds env2]) =
           s\<lparr>isBuilding := False, buildQueue := False, timers := timers s,
             builds_started := builds_started s + 1, stale := False\<rparr>"
proof -
  have "run s (replicate K Change @ [BuildProjectEnds env1, TimerFires, BuildProjectEnds env2]) =
        run (run s (replicate K Change @ [BuildProjectEnds env1, TimerFires])) [BuildProjectEnds env2]"
    by (simp add: run_append [symmetric])
  then show ?thesis
    using assms
    by (simp add: run_burst_then_timer run_Cons run_Nil step_def build_resume_def build_finally_def)
qed

text \<open>While the process lives every unbuilt change stays covered, so a loop that is idle
  has built the latest sources.\<close>

lemma covered_step: "covered s \<Longrightarrow> covered (step s ev)"
  by (cases ev)
    (auto simp: covered_def step_def build_call_def build_resume_def build_finally_def Let_def
      split: settle.splits)

lemma covered_run: "covered s \<Longrightarrow> covered (run s evs)"
  by (induction evs arbitrary: s) (simp_all add: run_Nil run_Cons covered_step)

lemma idle_reflects_latest_change: "idle (run DevServer evs) \<Longrightarrow> \<not> stale (run DevServer evs)"
proof -
  have "covered DevServer" by (simp add: covered_def DevServer_def)
  then have "covered (run DevServer evs)" by (rule covered_run)
  then show "idle (run DevServer evs) \<Longrightarrow> \<not> stale (run DevServer evs)"
    by (auto simp: covered_def idle_def)
qed

lemma buildProject_env_ok: "buildProject env_ok = Resolved"
  by (simp add: buildProject_def buildProject_try_def build_copyFile_def build_ensureDir_def
      env_ok_def)

lemma buildProject_env_esbuild_fails: "buildProject env_esbuild_fails = ProcessExit 1"
  by (simp add: buildProject_def buildProject_try_def build_copyFile_def build_ensureDir_def
      env_ok_def env_esbuild_fails_def)

lemma run_burst_as_one:
  assumes "isBuilding s" and "exit_code s = None" and "0 < K"
  shows "run s (replicate K Change @ evs) = run s (Change # evs)"
  using assms by (simp add: run_append run_burst_building run_Cons step_Change_building)

text \<open>Scheduled rebuilds that run one after another: each timer starts one build.\<close>

lemma run_settle:
  assumes "buildProject env = Resolved"
  shows "\<not> isBuilding u \<Longrightarrow> \<not> buildQueue u \<Longrightarrow> exit_code u = None \<Longrightarrow> n \<le> timers u \<Longrightarrow>
    run u (settle env n) =
      u\<lparr>isBuilding := False, timers := timers u - n, builds_started := builds_started u + n,
        stale := (stale u \<and> n = 0)\<rparr>"
proof (induction n arbitrary: u)
  case 0
  then show ?case by (cases u) (simp add: settle_def run_Nil)
next
  case (Suc n)
  let ?u1 = "u\<lparr>isBuilding := False, timers := timers u - 1,
    builds_started := builds_started u + 1, stale := False\<rparr>"
  have two: "run u [TimerFires, BuildProjectEnds env] = ?u1"
    using Suc.prems assms
    by (simp add: run_Cons run_Nil step_def build_call_def build_resume_def build_finally_def
        Let_def)
  have "settle env (Suc n) = [TimerFires, BuildProjectEnds env] @ settle env n"
    by (simp add: settle_def)
  then have "run u (settle env (Suc n)) = run ?u1 (settle env n)"
    by (simp only: run_append two)
  also have "\<dots> = ?u1\<lparr>isBuilding := False, timers := timers ?u1 - n,
      builds_started := builds_started ?u1 + n, stale := (stale ?u1 \<and> n = 0)\<rparr>"
    using Suc.prems by (intro Suc.IH) simp_all
  finally show ?case by simp
qed

lemma run_burst_then_settle:
  assumes "isBuilding s" and "exit_code s = None" and "0 < K"
    and "buildProject env1 = Resolved" and "buildProject env2 = Resolved"
  shows "run s (replicate K Change @ BuildProjectEnds env1 # settle env2 (timers s + 1)) =
           s\<lparr>isBuilding := False, buildQueue := False, timers := 0,
             builds_started := builds_started s + timers s + 1, stale := False\<rparr>"
proof -
  let ?u = "s\<lparr>isBuilding := False, buildQueue := False, timers := timers s + 1, stale := True\<rparr>"
  have "run s (replicate K Change @ BuildProjectEnds env1 # settle env2 (timers s + 1)) =
        run (run s (replicate K Change @ [BuildProjectEnds env1])) (settle env2 (timers s + 1))"
    by (simp add: run_append [symmetric])
  also have "\<dots> = run ?u (settle env2 (timers s + 1))"
    using assms by (simp only: run_burst_then_build_ends)
  also have "\<dots> = ?u\<lparr>isBuilding := False, timers := timers ?u - (timers s + 1),
      builds_started := builds_started ?u + (timers s + 1),
      stale := (stale ?u \<and> timers s + 1 = 0)\<rparr>"
    using assms(2) by (intro run_settle [OF assms(5)]) simp_all
  finally show ?thesis by simp
qed

text \<open>
  C1, as amended.  A burst of \<open>K \<ge> 1\<close> watcher events that arrives while a build is in
  progress only sets the one flag \<^verbatim>\<open>buildQueue\<close>: the state after the burst is the state
  after a single event, so whatever follows is the same as after one event, and no
  bundler invocation has been started.  When the build in progress then returns, exactly
  one timer is scheduled for the burst, besides the timers that earlier queued rebuilds
  left pending.  When all these timers fire one after another, each after the build
  before it has returned, every one of them starts one rebuild, and the loop is then
  idle: the burst has added exactly one rebuild to those that were pending already.
  With no timer pending at the burst, that is exactly one rebuild, whatever \<open>K\<close> was.
\<close>

theorem build_coalesces_burst:
  assumes "isBuilding s" and "exit_code s = None" and "0 < K"
    and "buildProject env1 = Resolved" and "buildProject env2 = Resolved"
  shows "run s (replicate K Change) = s\<lparr>buildQueue := True, stale := True\<rparr>
    \<and> run s (replicate K Change) = run s [Change]
    \<and> run s (replicate K Change @ evs) = run s (Change # evs)
    \<and> run s (replicate K Change @ [BuildProjectEnds env1]) =
        s\<lparr>isBuilding := False, buildQueue := False, timers := timers s + 1, stale := True\<rparr>
    \<and> run s (replicate K Change @ BuildProjectEnds env1 # settle env2 (timers s + 1)) =
        s\<lparr>isBuilding := False, buildQueue := False, timers := 0,
          builds_started := builds_started s + timers s + 1, stale := False\<rparr>
    \<and> idle (run s (replicate K Change @ BuildProjectEnds env1 # settle env2 (timers s + 1)))
    \<and> (timers s = 0 \<longrightarrow>
          run s (replicate K Change @ [BuildProjectEnds env1, TimerFires]) =
            s\<lparr>isBuilding := True, buildQueue := False, timers := 0,
              builds_started := builds_started s + 1, stale := False\<rparr>
        \<and> run s (replicate K Change @ [BuildProjectEnds env1, TimerFires, BuildProjectEnds env2]) =
            s\<lparr>isBuilding := False, buildQueue := False, timers := 0,
              builds_started := builds_started s + 1, stale := False\<rparr>
        \<and> idle (run s (replicate K Change @ [BuildProjectEnds env1, TimerFires, BuildProjectEnds env2])))"
proof (intro conjI impI)
  show "run s (replicate K Change) = s\<lparr>buildQueue := True, stale := True\<rparr>"
    using assms by (simp add: run_burst_building)
  then show "run s (replicate K Change) = run s [Change]"
    using assms by (simp add: run_Cons run_Nil step_Change_building)
  show "run s (replicate K Change @ evs) = run s (Change # evs)"
    using assms(1,2,3) by (rule run_burst_as_one)
  show "run s (replicate K Change @ [BuildProjectEnds env1]) =
        s\<lparr>isBuilding := False, buildQueue := False, timers := timers s + 1, stale := True\<rparr>"
    using assms by (simp add: run_burst_then_build_ends)
  show settled: "run s (replicate K Change @ BuildProjectEnds env1 # settle env2 (timers s + 1)) =
        s\<lparr>isBuilding := False, buildQueue := False, timers := 0,
          builds_started := builds_started s + timers s + 1, stale := False\<rparr>"
    using assms by (rule run_burst_then_settle)
  show "idle (run s (replicate K Change @ BuildProjectEnds env1 # settle env2 (timers s + 1)))"
    by (simp only: settled) (simp add: idle_def)
  show "run s (replicate K Change @ [BuildProjectEnds env1, TimerFires]) =
        s\<lparr>isBuilding := True, buildQueue := False, timers := 0,
          builds_started := builds_started s + 1, stale := False\<rparr>"
    if "timers s = 0"
    using assms that by (simp add: run_burst_then_timer)
  show final: "run s (replicate K Change @ [BuildProjectEnds env1, TimerFires, BuildProjectEnds env2]) =
        s\<lparr>isBuilding := False, buildQueue := False, timers := 0,
          builds_started := builds_started s + 1, stale := False\<rparr>"
    if "timers s = 0"
    using assms that by (simp add: run_burst_then_rebuild)
  show "idle (run s (replicate K Change @ [BuildProjectEnds env1, TimerFires, BuildProjectEnds env2]))"
    if "timers s = 0"
    by (simp add: final [OF that] idle_def)
qed

lemma building_in_window_eq:
  "building_in_window =
     \<lparr>isBuilding = True, buildQueue = False, timers = 1, exit_code = None,
      builds_started = 2, stale = False\<rparr>"
  by (simp add: building_in_window_def run_def step_def build_call_def build_resume_def
      build_finally_def Let_def DevServer_def buildProject_env_ok)

theorem build_coalesces_burst_witness:
  "isBuilding (build_call DevServer) \<and> exit_code (build_call DevServer) = None
   \<and> timers (build_call DevServer) = 0 \<and> (0::nat) < 3 \<and> buildProject env_ok = Resolved
   \<and> run (build_call DevServer) (replicate 3 Change) = run (build_call DevServer) [Change]
   \<and> builds_started (run (build_call DevServer) (replicate 3 Change)) = 1
   \<and> builds_started (run (build_call DevServer)
        (replicate 3 Change @ [BuildProjectEnds env_ok, TimerFires, BuildProjectEnds env_ok])) = 2
   \<and> idle (run (build_call DevServer)
        (replicate 3 Change @ [BuildProjectEnds env_ok, TimerFires, BuildProjectEnds env_ok]))
   \<and> isBuilding building_in_window \<and> exit_code building_in_window = None
   \<and> timers building_in_window = 1
   \<and> run building_in_window (replicate 3 Change) = run building_in_window [Change]
   \<and> timers (run building_in_window (replicate 3 Change @ [BuildProjectEnds env_ok])) = 2
   \<and> builds_started (run building_in_window
        (replicate 3 Change @ BuildProjectEnds env_ok # settle env_ok 2)) = 4
   \<and> idle (run building_in_window
        (replicate 3 Change @ BuildProjectEnds env_ok # settle env_ok 2))"
proof -
  let ?s = "build_call DevServer"
  let ?w = "building_in_window"
  have pre: "isBuilding ?s" "exit_code ?s = None" "(0::nat) < 3"
    by (simp_all add: build_call_def DevServer_def)
  have t0: "timers ?s = 0"
    by (simp add: build_call_def DevServer_def)
  note th = build_coalesces_burst [OF pre buildProject_env_ok buildProject_env_ok]
  have c1: "run ?s (replicate 3 Change) = run ?s [Change]"
    using th by blast
  have "run ?s (replicate 3 Change) = ?s\<lparr>buildQueue := True, stale := True\<rparr>"
    using th by blast
  then have c2: "builds_started (run ?s (replicate 3 Change)) = 1"
    by (simp add: build_call_def DevServer_def)
  have "run ?s (replicate 3 Change @ [BuildProjectEnds env_ok, TimerFires, BuildProjectEnds env_ok]) =
        ?s\<lparr>isBuilding := False, buildQueue := False, timers := 0,
          builds_started := builds_started ?s + 1, stale := False\<rparr>"
    using th t0 by blast
  then have c3: "builds_started (run ?s
      (replicate 3 Change @ [BuildProjectEnds env_ok, TimerFires, BuildProjectEnds env_ok])) = 2"
    by (simp add: build_call_def DevServer_def)
  have c4: "idle (run ?s
      (replicate 3 Change @ [BuildProjectEnds env_ok, TimerFires, BuildProjectEnds env_ok]))"
    using th t0 by blast
  have prew: "isBuilding ?w" "exit_code ?w = None" "(0::nat) < 3"
    by (simp_all add: building_in_window_eq)
  have t1: "timers ?w = 1" and b2: "builds_started ?w = 2"
    by (simp_all add: building_in_window_eq)
  note tw = build_coalesces_burst [OF prew buildProject_env_ok buildProject_env_ok]
  have w1: "run ?w (replicate 3 Change) = run ?w [Change]"
    using tw by blast
  have "run ?w (replicate 3 Change @ [BuildProjectEnds env_ok]) =
        ?w\<lparr>isBuilding := False, buildQueue := False, timers := timers ?w + 1, stale := True\<rparr>"
    using tw by blast
  then have w2: "timers (run ?w (replicate 3 Change @ [BuildProjectEnds env_ok])) = 2"
    by (simp add: t1)
  have two: "timers ?w + 1 = 2" by (simp add: t1)
  have w3eq: "run ?w (replicate 3 Change @ BuildProjectEnds env_ok # settle env_ok (timers ?w + 1)) =
        ?w\<lparr>isBuilding := False, buildQueue := False, timers := 0,
          builds_started := builds_started ?w + timers ?w + 1, stale := False\<rparr>"
    using tw by blast
  have "run ?w (replicate 3 Change @ BuildProjectEnds env_ok # settle env_ok 2) =
        ?w\<lparr>isBuilding := False, buildQueue := False, timers := 0,
          builds_started := builds_started ?w + timers ?w + 1, stale := False\<rparr>"
    using w3eq by (simp only: two)
  then have w3: "builds_started (run ?w
      (replicate 3 Change @ BuildProjectEnds env_ok # settle env_ok 2)) = 4"
    by (simp add: t1 b2)
  have "idle (run ?w (replicate 3 Change @ BuildProjectEnds env_ok # settle env_ok (timers ?w + 1)))"
    using tw by blast
  then have w4: "idle (run ?w (replicate 3 Change @ BuildProjectEnds env_ok # settle env_ok 2))"
    by (simp only: two)
  show ?thesis
    using pre t0 buildProject_env_ok c1 c2 c3 c4 prew t1 w1 w2 w3 w4 by blast
qed

text \<open>
  C1 as stated fails in the state with a build in flight and a timer pending: after a
  burst of three events two rebuilds are pending (the flag and the timer), the loop is
  not idle after one rebuild, and two rebuilds run before it is.
\<close>

theorem pending_timer_adds_rebuild:
  "isBuilding building_in_window \<and> exit_code building_in_window = None
   \<and> builds_started building_in_window = 2
   \<and> buildQueue (run building_in_window (replicate 3 Change))
   \<and> timers (run building_in_window (replicate 3 Change)) = 1
   \<and> \<not> idle (run building_in_window
        (replicate 3 Change @ [BuildProjectEnds env_ok, TimerFires, BuildProjectEnds env_ok]))
   \<and> builds_started (run building_in_window
        (replicate 3 Change @ [BuildProjectEnds env_ok, TimerFires, BuildProjectEnds env_ok,
           TimerFires, BuildProjectEnds env_ok])) = 4
   \<and> idle (run building_in_window
        (replicate 3 Change @ [BuildProjectEnds env_ok, TimerFires, BuildProjectEnds env_ok,
           TimerFires, BuildProjectEnds env_ok]))"
  by (simp add: building_in_window_eq run_def step_def build_call_def build_resume_def
      build_finally_def Let_def buildProject_env_ok idle_def numeral_3_eq_3)

text \<open>
  C2.  The run in which a file changes while the first build is in flight and esbuild then
  reports an error: \<^verbatim>\<open>buildProject\<close> ends the process with status 1 from its own
  \<^verbatim>\<open>catch\<close>, so \<^verbatim>\<open>catch\<close> and \<^verbatim>\<open>finally\<close> of \<^verbatim>\<open>DevServer.build\<close> never run:
  the queued rebuild is never started, and the change is left unbuilt.
\<close>

theorem failed_build_ends_loop:
  "run DevServer [Change, Change, BuildProjectEnds env_esbuild_fails, TimerFires,
       BuildProjectEnds env_ok] =
     \<lparr>isBuilding = True, buildQueue = True, timers = 0, exit_code = Some 1,
      builds_started = 1, stale = True\<rparr>"
  by (simp add: run_def step_def build_call_def build_resume_def DevServer_def
      buildProject_env_esbuild_fails)

section \<open>Properties of the asset copier: failures\<close>

lemma copyFile_resolves: "\<exists>b. fst (copyFile srcp src dest st) = Inr b"
  by (cases "copyFile_try src dest (fst st)") (auto simp: copyFile_def split: sum.splits)

lemma copyFile_failure:
  "copyFile_try src dest (fst st) = (Inl e, fs1) \<Longrightarrow>
   copyFile srcp src dest st = (Inr False, fs1, snd st @ [WarnCouldNotCopy srcp e])"
  by (simp add: copyFile_def)

lemma copy_never_rejects:
  "fst (copyDirectory srcp n dest st) = Inr ()"
  "fst (copy_entries srcp es dest st) = Inr ()"
proof (induction srcp n dest st and srcp es dest st rule: copyDirectory_copy_entries.induct)
  case (1 srcp r c dest st)
  then show ?case by (simp split: sum.splits)
next
  case (2 srcp r es dest st)
  then show ?case by (simp split: sum.splits prod.splits)
next
  case (3 srcp dest st)
  then show ?case by simp
next
  case (4 srcp name child rest dest st)
  show ?case
  proof (cases "isDirectory child")
    case True
    obtain u st1 where c: "copyDirectory (srcp @ [name]) child (dest @ [name]) st = (u, st1)"
      by (cases "copyDirectory (srcp @ [name]) child (dest @ [name]) st")
    with "4.IH"(1) [OF True] have u: "u = Inr ()" by simp
    from "4.IH"(2) [OF True c [symmetric] u] True c u show ?thesis by simp
  next
    case False
    obtain u st1 where c: "copyFile (srcp @ [name]) child (dest @ [name]) st = (u, st1)"
      by (cases "copyFile (srcp @ [name]) child (dest @ [name]) st")
    obtain b where u: "u = Inr b"
      using copyFile_resolves [of "srcp @ [name]" child "dest @ [name]" st] c by auto
    from "4.IH"(3) [OF False c [symmetric] u] False c u show ?thesis by simp
  qed
qed

lemma copy_entries_Cons_file:
  "\<not> isDirectory f \<Longrightarrow>
   copy_entries srcp ((name, f) # rest) dest st =
     copy_entries srcp rest dest (snd (copyFile (srcp @ [name]) f (dest @ [name]) st))"
  using copyFile_resolves [of "srcp @ [name]" f "dest @ [name]" st]
  by (cases "copyFile (srcp @ [name]) f (dest @ [name]) st") auto

lemma copy_entries_Cons_dir:
  "isDirectory n \<Longrightarrow>
   copy_entries srcp ((name, n) # rest) dest st =
     copy_entries srcp rest dest (snd (copyDirectory (srcp @ [name]) n (dest @ [name]) st))"
  using copy_never_rejects(1) [of "srcp @ [name]" n "dest @ [name]" st]
  by (cases "copyDirectory (srcp @ [name]) n (dest @ [name]) st") auto

lemma copy_entries_append:
  "copy_entries srcp (xs @ ys) dest st =
     copy_entries srcp ys dest (snd (copy_entries srcp xs dest st))"
proof (induction xs arbitrary: st)
  case Nil
  then show ?case by simp
next
  case (Cons x xs)
  obtain name n where x: "x = (name, n)" by (cases x)
  show ?case
  proof (cases "isDirectory n")
    case True
    then show ?thesis
      unfolding x append_Cons by (simp add: copy_entries_Cons_dir Cons.IH del: copy_entries.simps)
  next
    case False
    then show ?thesis
      unfolding x append_Cons by (simp add: copy_entries_Cons_file Cons.IH del: copy_entries.simps)
  qed
qed

text \<open>
  C7.  When the loop of \<^verbatim>\<open>copyDirectory\<close> reaches a file whose copy fails (the
  \<^verbatim>\<open>try\<close> block of \<^verbatim>\<open>copyFile\<close> throws), \<^verbatim>\<open>copyFile\<close> returns false and logs one
  warning, and the loop goes on with the entries after it, from the file system the
  failed copy left.  No call of \<^verbatim>\<open>copyFile\<close>, of the loop or of \<^verbatim>\<open>copyDirectory\<close>
  ever rejects.
\<close>

theorem copy_failure_is_not_fatal:
  assumes "\<not> isDirectory f"
    and "st1 = snd (copy_entries srcp before dest st)"
    and "copyFile_try f (dest @ [name]) (fst st1) = (Inl e, fs1)"
  shows "copyFile (srcp @ [name]) f (dest @ [name]) st1 =
           (Inr False, fs1, snd st1 @ [WarnCouldNotCopy (srcp @ [name]) e])
    \<and> copy_entries srcp (before @ (name, f) # after) dest st =
        copy_entries srcp after dest (fs1, snd st1 @ [WarnCouldNotCopy (srcp @ [name]) e])
    \<and> fst (copy_entries srcp (before @ (name, f) # after) dest st) = Inr ()
    \<and> fst (copyDirectory srcp (SDir r (before @ (name, f) # after)) dest st) = Inr ()
    \<and> (\<exists>b. fst (copyFile srcp' f' dest' st') = Inr b)
    \<and> fst (copyDirectory srcp' n' dest' st') = Inr ()"
proof (intro conjI)
  show failed: "copyFile (srcp @ [name]) f (dest @ [name]) st1 =
           (Inr False, fs1, snd st1 @ [WarnCouldNotCopy (srcp @ [name]) e])"
    using assms(3) by (rule copyFile_failure)
  have "copy_entries srcp (before @ (name, f) # after) dest st =
        copy_entries srcp ((name, f) # after) dest st1"
    using assms(2) by (simp only: copy_entries_append)
  also have "\<dots> = copy_entries srcp after dest
      (snd (copyFile (srcp @ [name]) f (dest @ [name]) st1))"
    using assms(1) by (rule copy_entries_Cons_file)
  finally show "copy_entries srcp (before @ (name, f) # after) dest st =
        copy_entries srcp after dest (fs1, snd st1 @ [WarnCouldNotCopy (srcp @ [name]) e])"
    by (simp add: failed)
  show "fst (copy_entries srcp (before @ (name, f) # after) dest st) = Inr ()"
    by (rule copy_never_rejects)
  show "fst (copyDirectory srcp (SDir r (before @ (name, f) # after)) dest st) = Inr ()"
    by (rule copy_never_rejects)
  show "\<exists>b. fst (copyFile srcp' f' dest' st') = Inr b"
    by (rule copyFile_resolves)
  show "fst (copyDirectory srcp' n' dest' st') = Inr ()"
    by (rule copy_never_rejects)
qed

lemma ensureDir_blocked: "ensureDir [''public'', ''monaco''] fs_blocked = Inr fs_blocked"
  by (simp add: ensureDir_def fs_mkdir_def fs_blocked_def)

lemma copyFile_try_blocked:
  "copyFile_try (SFile True (Bytes ''a'')) ([''public'', ''monaco''] @ [''index.mjs'']) fs_blocked =
     (Inl EISDIR, fs_blocked)"
  by (simp add: copyFile_try_def ensureDir_blocked fs_copyFile_def fs_writeFile_def stat_def)
    (simp add: fs_blocked_def)

lemma copyFile_try_free:
  "copyFile_try (SFile True (Bytes ''c'')) ([''public'', ''monaco''] @ [''onig.wasm'']) fs_blocked =
     (Inr True, fs_blocked([''public'', ''monaco'', ''onig.wasm''] \<mapsto> FileE (Bytes ''c'')))"
  by (simp add: copyFile_try_def ensureDir_blocked fs_copyFile_def fs_writeFile_def stat_def)
    (simp add: fs_blocked_def)

theorem copy_failure_is_not_fatal_witness:
  "\<not> isDirectory (SFile True (Bytes ''a''))
   \<and> copyFile_try (SFile True (Bytes ''a'')) ([''public'', ''monaco''] @ [''index.mjs'']) fs_blocked =
       (Inl EISDIR, fs_blocked)
   \<and> copy_entries [''dist'']
        [(''index.mjs'', SFile True (Bytes ''a'')), (''onig.wasm'', SFile True (Bytes ''c''))]
        [''public'', ''monaco''] (fs_blocked, []) =
       (Inr (), fs_blocked([''public'', ''monaco'', ''onig.wasm''] \<mapsto> FileE (Bytes ''c'')),
        [WarnCouldNotCopy [''dist'', ''index.mjs''] EISDIR])"
proof -
  let ?f = "SFile True (Bytes ''a'')"
  have h1: "\<not> isDirectory ?f" by simp
  have h2: "(fs_blocked, []) = snd (copy_entries [''dist''] [] [''public'', ''monaco''] (fs_blocked, []))"
    by simp
  have h3: "copyFile_try ?f ([''public'', ''monaco''] @ [''index.mjs''])
      (fst (fs_blocked, [] :: message list)) = (Inl EISDIR, fs_blocked)"
    using copyFile_try_blocked by simp
  have "copy_entries [''dist''] ([] @ (''index.mjs'', ?f) # [(''onig.wasm'', SFile True (Bytes ''c''))])
          [''public'', ''monaco''] (fs_blocked, []) =
        copy_entries [''dist''] [(''onig.wasm'', SFile True (Bytes ''c''))] [''public'', ''monaco'']
          (fs_blocked, snd (fs_blocked, [] :: message list) @ [WarnCouldNotCopy ([''dist''] @ [''index.mjs'']) EISDIR])"
    using copy_failure_is_not_fatal [OF h1 h2 h3] by blast
  also have "\<dots> = (Inr (), fs_blocked([''public'', ''monaco'', ''onig.wasm''] \<mapsto> FileE (Bytes ''c'')),
        [WarnCouldNotCopy [''dist'', ''index.mjs''] EISDIR])"
    using copyFile_try_free by (simp add: copyFile_def)
  finally show ?thesis
    using h1 copyFile_try_blocked by simp
qed

section \<open>Properties of the asset copier: the verification of critical files\<close>

lemma verify_files_flag:
  "fst (verify_files fs fl (ok, lg)) =
     (ok \<and> (\<forall>f\<in>set fl. fs_access (path_join publicMonacoPath f) fs))"
  by (induction fl arbitrary: ok lg) auto

lemma verify_files_log:
  "m \<in> set (snd (verify_files fs fl (ok, lg))) \<Longrightarrow>
     m \<in> set lg \<or> (\<exists>f. m = InfoPresent f \<or> m = ErrorMissing f)"
proof (induction fl arbitrary: ok lg)
  case Nil
  then show ?case by simp
next
  case (Cons a fl)
  show ?case
  proof (cases "fs_access (path_join publicMonacoPath a) fs")
    case True
    then have "m \<in> set (snd (verify_files fs fl (ok, lg @ [InfoPresent a])))"
      using Cons.prems by simp
    from Cons.IH [OF this] show ?thesis by auto
  next
    case False
    then have "m \<in> set (snd (verify_files fs fl (False, lg @ [ErrorMissing a])))"
      using Cons.prems by simp
    from Cons.IH [OF this] show ?thesis by auto
  qed
qed

lemma verify_files_missing:
  "f \<in> set fl \<Longrightarrow> \<not> fs_access (path_join publicMonacoPath f) fs \<Longrightarrow>
     ErrorMissing f \<in> set (snd (verify_files fs fl (ok, lg)))"
proof (induction fl arbitrary: ok lg)
  case Nil
  then show ?case by simp
next
  case (Cons a fl)
  have keep: "\<And>m ok lg. m \<in> set lg \<Longrightarrow> m \<in> set (snd (verify_files fs fl (ok, lg)))"
  proof -
    fix m ok lg
    show "m \<in> set lg \<Longrightarrow> m \<in> set (snd (verify_files fs fl (ok, lg)))"
      by (induction fl arbitrary: ok lg) auto
  qed
  show ?case
  proof (cases "f = a")
    case True
    then show ?thesis using Cons.prems keep by simp
  next
    case False
    then show ?thesis using Cons by auto
  qed
qed

lemma copyFile_log:
  "m \<in> set (snd (snd (copyFile srcp src dest st))) \<Longrightarrow> m \<in> set (snd st) \<or> warning m"
  by (cases "copyFile_try src dest (fst st)")
    (auto simp: copyFile_def warning_def split: sum.splits)

lemma copy_log:
  "m \<in> set (snd (snd (copyDirectory srcp n dest st))) \<Longrightarrow> m \<in> set (snd st) \<or> warning m"
  "m \<in> set (snd (snd (copy_entries srcp es dest st))) \<Longrightarrow> m \<in> set (snd st) \<or> warning m"
proof (induction srcp n dest st and srcp es dest st rule: copyDirectory_copy_entries.induct)
  case (1 srcp r c dest st)
  then show ?case by (auto simp: warning_def split: sum.splits)
next
  case (2 srcp r es dest st)
  then show ?case by (auto simp: warning_def split: sum.splits prod.splits if_splits)
next
  case (3 srcp dest st)
  then show ?case by simp
next
  case (4 srcp name child rest dest st)
  show ?case
  proof (cases "isDirectory child")
    case True
    obtain st1 where c: "copyDirectory (srcp @ [name]) child (dest @ [name]) st = (Inr (), st1)"
      using copy_never_rejects(1) [of "srcp @ [name]" child "dest @ [name]" st]
      by (cases "copyDirectory (srcp @ [name]) child (dest @ [name]) st") auto
    have "m \<in> set (snd (snd (copy_entries srcp rest dest st1)))"
      using "4.prems" True c by simp
    then have "m \<in> set (snd st1) \<or> warning m"
      using "4.IH"(2) [OF True c [symmetric] refl] by simp
    then show ?thesis
      using "4.IH"(1) [OF True] c by auto
  next
    case False
    obtain b st1 where c: "copyFile (srcp @ [name]) child (dest @ [name]) st = (Inr b, st1)"
      using copyFile_resolves [of "srcp @ [name]" child "dest @ [name]" st]
      by (cases "copyFile (srcp @ [name]) child (dest @ [name]) st") auto
    have "m \<in> set (snd (snd (copy_entries srcp rest dest st1)))"
      using "4.prems" False c by simp
    then have "m \<in> set (snd st1) \<or> warning m"
      using "4.IH"(3) [OF False c [symmetric] refl] by simp
    then show ?thesis
      using copyFile_log [of m "srcp @ [name]" child "dest @ [name]" st] c by auto
  qed
qed

lemma copyModernMonaco_missing:
  assumes "copyDirectory monacoDistPath src publicMonacoPath (fs, []) = (r, fs1, lg1)"
    and "f \<in> set criticalFiles" and "\<not> fs_access (path_join publicMonacoPath f) fs1"
  shows "copyModernMonaco now (Some src) fs =
           (ProcessExit 1, fs1, snd (verify_files fs1 criticalFiles (True, lg1)) @ [ErrorSomeMissing])"
proof -
  have r: "r = Inr ()"
    using copy_never_rejects(1) [of monacoDistPath src publicMonacoPath "(fs, [])"] assms(1) by simp
  obtain ok lg2 where v: "verify_files fs1 criticalFiles (True, lg1) = (ok, lg2)"
    by (cases "verify_files fs1 criticalFiles (True, lg1)")
  have "\<not> ok"
    using verify_files_flag [of fs1 criticalFiles True lg1] v assms(2,3) by auto
  then show ?thesis
    using assms(1) r v by (simp add: copyModernMonaco_def)
qed

lemma copyModernMonaco_log_before_write:
  assumes "copyDirectory monacoDistPath src publicMonacoPath (fs, []) = (r, fs1, lg1)"
  shows "InfoCreatedVerification \<notin> set (snd (verify_files fs1 criticalFiles (True, lg1)))"
proof
  assume "InfoCreatedVerification \<in> set (snd (verify_files fs1 criticalFiles (True, lg1)))"
  then have "InfoCreatedVerification \<in> set lg1"
    using verify_files_log [of InfoCreatedVerification fs1 criticalFiles True lg1] by auto
  then have "warning InfoCreatedVerification"
    using copy_log(1) [of InfoCreatedVerification monacoDistPath src publicMonacoPath "(fs, [])"]
      assms by simp
  then show False by (simp add: warning_def)
qed

lemma copyModernMonaco_written:
  assumes "copyDirectory monacoDistPath src publicMonacoPath (fs, []) = (r, fs1, lg1)"
    and "copyModernMonaco now (Some src) fs = (out, fs2, lg)"
    and "InfoCreatedVerification \<in> set lg \<or> fs2 \<noteq> fs1"
  shows "(\<forall>f\<in>set criticalFiles. fs_access (path_join publicMonacoPath f) fs1)
    \<and> out = Resolved
    \<and> fs2 = fs1(manifest_path \<mapsto>
         FileE (Json \<lparr>timestamp = now, files = criticalFiles, status = ''ready''\<rparr>))"
proof -
  have r: "r = Inr ()"
    using copy_never_rejects(1) [of monacoDistPath src publicMonacoPath "(fs, [])"] assms(1) by simp
  obtain ok lg2 where v: "verify_files fs1 criticalFiles (True, lg1) = (ok, lg2)"
    by (cases "verify_files fs1 criticalFiles (True, lg1)")
  have nolog: "InfoCreatedVerification \<notin> set lg2"
    using copyModernMonaco_log_before_write [OF assms(1)] v by simp
  have ok: "ok = (\<forall>f\<in>set criticalFiles. fs_access (path_join publicMonacoPath f) fs1)"
    using verify_files_flag [of fs1 criticalFiles True lg1] v by simp
  show ?thesis
  proof (cases ok)
    case False
    then have "copyModernMonaco now (Some src) fs = (ProcessExit 1, fs1, lg2 @ [ErrorSomeMissing])"
      using assms(1) r v by (simp add: copyModernMonaco_def)
    then show ?thesis using assms(2,3) nolog by auto
  next
    case True
    show ?thesis
    proof (cases "fs_writeFile (Json \<lparr>timestamp = now, files = criticalFiles, status = ''ready''\<rparr>)
        manifest_path fs1")
      case (Inl e)
      then have "copyModernMonaco now (Some src) fs = (Rejected e, fs1, lg2 @ [InfoCopied])"
        using assms(1) r v True by (simp add: copyModernMonaco_def manifest_path_def)
      then show ?thesis using assms(2,3) nolog by auto
    next
      case (Inr fs3)
      then have "copyModernMonaco now (Some src) fs =
          (Resolved, fs3, lg2 @ [InfoCopied, InfoCreatedVerification])"
        using assms(1) r v True by (simp add: copyModernMonaco_def manifest_path_def)
      moreover have "fs3 = fs1(manifest_path \<mapsto>
         FileE (Json \<lparr>timestamp = now, files = criticalFiles, status = ''ready''\<rparr>))"
        using Inr by (auto simp: fs_writeFile_def split: if_splits option.splits entry.splits)
      ultimately show ?thesis using assms(2) True ok by auto
    qed
  qed
qed

text \<open>
  C3.  Let \<open>fs1\<close> be the file system that \<^verbatim>\<open>copyDirectory\<close> leaves.  If an entry of
  \<^verbatim>\<open>criticalFiles\<close> is absent from it under \<^verbatim>\<open>public/monaco\<close>, \<^verbatim>\<open>copyModernMonaco\<close> calls
  \<^verbatim>\<open>process.exit(1)\<close>: the script ends with status 1, the file system is still \<open>fs1\<close>
  (nothing was written), and the console does not say that \<^verbatim>\<open>verification.json\<close> was
  created.  Whenever the script does write the manifest, every critical file is present,
  the call returns, and the manifest holds the timestamp, the list and the status
  \<^verbatim>\<open>ready\<close>.
\<close>

theorem missing_critical_file_exits_nonzero:
  assumes "copyDirectory monacoDistPath src publicMonacoPath (fs, []) = (r, fs1, lg1)"
  shows "((\<exists>f\<in>set criticalFiles. \<not> fs_access (path_join publicMonacoPath f) fs1) \<longrightarrow>
           (\<exists>lg. copyModernMonaco now (Some src) fs = (ProcessExit 1, fs1, lg)
             \<and> copy_monaco_script now (Some src) fs = (1, fs1, lg)
             \<and> InfoCreatedVerification \<notin> set lg))
    \<and> (\<forall>out fs2 lg. copyModernMonaco now (Some src) fs = (out, fs2, lg)
          \<and> (InfoCreatedVerification \<in> set lg \<or> fs2 \<noteq> fs1) \<longrightarrow>
          (\<forall>f\<in>set criticalFiles. fs_access (path_join publicMonacoPath f) fs1)
          \<and> out = Resolved
          \<and> fs2 = fs1(manifest_path \<mapsto>
              FileE (Json \<lparr>timestamp = now, files = criticalFiles, status = ''ready''\<rparr>)))"
proof (intro conjI impI allI)
  assume "\<exists>f\<in>set criticalFiles. \<not> fs_access (path_join publicMonacoPath f) fs1"
  then obtain f where f: "f \<in> set criticalFiles" "\<not> fs_access (path_join publicMonacoPath f) fs1"
    by blast
  let ?lg = "snd (verify_files fs1 criticalFiles (True, lg1)) @ [ErrorSomeMissing]"
  have c: "copyModernMonaco now (Some src) fs = (ProcessExit 1, fs1, ?lg)"
    using copyModernMonaco_missing [OF assms f] .
  moreover have "copy_monaco_script now (Some src) fs = (1, fs1, ?lg)"
    using c by (simp add: copy_monaco_script_def)
  moreover have "InfoCreatedVerification \<notin> set ?lg"
    using copyModernMonaco_log_before_write [OF assms] by simp
  ultimately show "\<exists>lg. copyModernMonaco now (Some src) fs = (ProcessExit 1, fs1, lg)
             \<and> copy_monaco_script now (Some src) fs = (1, fs1, lg)
             \<and> InfoCreatedVerification \<notin> set lg"
    by blast
next
  fix out fs2 lg
  assume a: "copyModernMonaco now (Some src) fs = (out, fs2, lg)
          \<and> (InfoCreatedVerification \<in> set lg \<or> fs2 \<noteq> fs1)"
  then have w: "(\<forall>f\<in>set criticalFiles. fs_access (path_join publicMonacoPath f) fs1)
    \<and> out = Resolved
    \<and> fs2 = fs1(manifest_path \<mapsto>
         FileE (Json \<lparr>timestamp = now, files = criticalFiles, status = ''ready''\<rparr>))"
    using copyModernMonaco_written [OF assms, of now out fs2 lg] by blast
  from w show "\<forall>f\<in>set criticalFiles. fs_access (path_join publicMonacoPath f) fs1" by blast
  from w show "out = Resolved" by blast
  from w show "fs2 = fs1(manifest_path \<mapsto>
         FileE (Json \<lparr>timestamp = now, files = criticalFiles, status = ''ready''\<rparr>))" by blast
qed

lemmas copy_defs = copyFile_def copyFile_try_def ensureDir_def fs_mkdir_def fs_copyFile_def
  fs_writeFile_def stat_def

lemma copy_partial:
  "copyDirectory monacoDistPath dist_partial publicMonacoPath (Map.empty, []) = (Inr (), fs_partial, [])"
  by (simp add: dist_partial_def monacoDistPath_def publicMonacoPath_def fs_partial_def copy_defs)

lemma copy_full_log:
  "copyDirectory monacoDistPath dist_full publicMonacoPath (Map.empty, []) = (Inr (), fs_full, [])"
  apply (simp add: fs_full_def)
  apply (simp add: dist_full_def monacoDistPath_def publicMonacoPath_def copy_defs)
  done

lemma fs_full_critical: "\<forall>f\<in>set criticalFiles. fs_access (path_join publicMonacoPath f) fs_full"
  apply (simp add: fs_full_def)
  apply (simp add: dist_full_def monacoDistPath_def publicMonacoPath_def copy_defs criticalFiles_def
      fs_access_def path_join_def)
  done

lemma fs_full_manifest:
  "fs_writeFile c manifest_path fs_full = Inr (fs_full(manifest_path \<mapsto> FileE c))"
  apply (simp add: fs_full_def)
  apply (simp add: dist_full_def monacoDistPath_def publicMonacoPath_def copy_defs
      manifest_path_def path_join_def)
  done

lemma verify_files_present:
  "\<forall>f\<in>set fl. fs_access (path_join publicMonacoPath f) fs \<Longrightarrow>
     verify_files fs fl (ok, lg) = (ok, lg @ map InfoPresent fl)"
  by (induction fl arbitrary: lg) auto

lemma copyModernMonaco_full:
  "copyModernMonaco now (Some dist_full) Map.empty =
     (Resolved,
      fs_full(manifest_path \<mapsto> FileE (Json \<lparr>timestamp = now, files = criticalFiles, status = ''ready''\<rparr>)),
      map InfoPresent criticalFiles @ [InfoCopied, InfoCreatedVerification])"
  using fs_full_manifest
  by (simp add: copyModernMonaco_def copy_full_log verify_files_present [OF fs_full_critical]
      manifest_path_def)

theorem missing_critical_file_exits_nonzero_witness:
  "copyDirectory monacoDistPath dist_partial publicMonacoPath (Map.empty, []) = (Inr (), fs_partial, [])
   \<and> ''onig.wasm'' \<in> set criticalFiles
   \<and> \<not> fs_access (path_join publicMonacoPath ''onig.wasm'') fs_partial
   \<and> (\<exists>lg. copy_monaco_script ''2025-01-01T00:00:00.000Z'' (Some dist_partial) Map.empty =
          (1, fs_partial, lg) \<and> InfoCreatedVerification \<notin> set lg)
   \<and> InfoCreatedVerification \<in>
        set (snd (snd (copyModernMonaco ''2025-01-01T00:00:00.000Z'' (Some dist_full) Map.empty)))
   \<and> list_all (\<lambda>f. fs_access (path_join publicMonacoPath f) fs_full) criticalFiles"
proof -
  let ?now = "''2025-01-01T00:00:00.000Z''"
  have a: "''onig.wasm'' \<in> set criticalFiles"
    by (simp add: criticalFiles_def)
  have b: "\<not> fs_access (path_join publicMonacoPath ''onig.wasm'') fs_partial"
    by (simp add: fs_access_def stat_def path_join_def publicMonacoPath_def fs_partial_def)
  have c: "\<exists>lg. copy_monaco_script ?now (Some dist_partial) Map.empty = (1, fs_partial, lg)
      \<and> InfoCreatedVerification \<notin> set lg"
    using missing_critical_file_exits_nonzero [OF copy_partial, of ?now] a b by blast
  have d: "InfoCreatedVerification \<in> set (snd (snd (copyModernMonaco ?now (Some dist_full) Map.empty)))"
    by (simp add: copyModernMonaco_full)
  have inL: "InfoCreatedVerification \<in>
      set (map InfoPresent criticalFiles @ [InfoCopied, InfoCreatedVerification])"
    by simp
  have e: "\<forall>f\<in>set criticalFiles. fs_access (path_join publicMonacoPath f) fs_full"
    using missing_critical_file_exits_nonzero [OF copy_full_log, of ?now]
      copyModernMonaco_full [of ?now] inL by blast
  have e': "list_all (\<lambda>f. fs_access (path_join publicMonacoPath f) fs_full) criticalFiles"
    using e by (simp only: list_all_iff)
  show ?thesis
    using copy_partial a b c d e' by blast
qed

section \<open>Properties of the asset copier: the copied tree\<close>

lemma overlay_at:
  "overlay look d fs (d @ q) = (if look q \<noteq> None then look q else fs (d @ q))"
  by (simp add: overlay_def)

lemma overlay_self:
  "overlay look d fs d = (if look [] \<noteq> None then look [] else fs d)"
  using overlay_at [of look d fs "[]"] by simp

lemma overlay_off: "\<not> prefix d p \<Longrightarrow> overlay look d fs p = fs p"
  by (simp add: overlay_def)

lemma fs_eqI:
  assumes "\<And>q. f (d @ q) = g (d @ q)" and "\<And>p. \<not> prefix d p \<Longrightarrow> f p = g p"
  shows "f = (g :: fs)"
proof
  fix p
  show "f p = g p"
  proof (cases "prefix d p")
    case True
    then obtain q where "p = d @ q" by (auto elim: prefixE)
    then show ?thesis using assms(1) by simp
  next
    case False
    then show ?thesis using assms(2) by simp
  qed
qed

lemma mkdir_from_dirs: "dirs_to (pre @ cs) fs \<Longrightarrow> mkdir_from pre cs fs = Inr fs"
proof (induction cs arbitrary: pre)
  case Nil
  then show ?case by simp
next
  case (Cons c cs)
  have "fs (pre @ [c]) = Some DirE"
    using Cons.prems by (simp add: dirs_to_def)
  moreover have "mkdir_from (pre @ [c]) cs fs = Inr fs"
    using Cons.IH [of "pre @ [c]"] Cons.prems by simp
  ultimately show ?case by simp
qed

lemma mkdir_from_append:
  "dirs_to (pre @ cs) fs \<Longrightarrow> mkdir_from pre (cs @ cs2) fs = mkdir_from (pre @ cs) cs2 fs"
proof (induction cs arbitrary: pre)
  case Nil
  then show ?case by simp
next
  case (Cons c cs)
  have "fs (pre @ [c]) = Some DirE"
    using Cons.prems by (simp add: dirs_to_def)
  moreover have "mkdir_from (pre @ [c]) (cs @ cs2) fs = mkdir_from ((pre @ [c]) @ cs) cs2 fs"
    using Cons.IH [of "pre @ [c]"] Cons.prems by simp
  ultimately show ?case by simp
qed

lemma ensureDir_dirs_to: "dirs_to d fs \<Longrightarrow> ensureDir d fs = Inr fs"
  using mkdir_from_dirs [of "[]" d fs] by (simp add: ensureDir_def fs_mkdir_def)

lemma ensureDir_child:
  assumes "dirs_to d fs" and "fs (d @ [name]) = None \<or> fs (d @ [name]) = Some DirE"
  shows "ensureDir (d @ [name]) fs = Inr (fs(d @ [name] \<mapsto> DirE))"
proof -
  have "mkdir_from [] (d @ [name]) fs = mkdir_from d [name] fs"
    using mkdir_from_append [of "[]" d fs "[name]"] assms(1) by simp
  moreover have "mkdir_from d [name] fs = Inr (fs(d @ [name] \<mapsto> DirE))"
    using assms(2) by (auto simp: fun_upd_idem)
  ultimately show ?thesis by (simp add: ensureDir_def fs_mkdir_def)
qed

lemma dirs_to_stat: "dirs_to d fs \<Longrightarrow> stat fs d = Some DirE"
  by (simp add: dirs_to_def stat_def)

lemma dirs_to_snoc:
  "dirs_to d fs \<Longrightarrow> dirs_to (d @ [name]) (fs(d @ [name] \<mapsto> DirE))"
  by (auto simp: dirs_to_def)

lemma prefix_snoc_not_prefix: "prefix p d \<Longrightarrow> \<not> prefix (d @ [name]) p"
proof
  assume "prefix p d" and "prefix (d @ [name]) p"
  then have "length p \<le> length d" and "length (d @ [name]) \<le> length p"
    by (auto dest: prefix_length_le)
  then show False by simp
qed

lemma dirs_to_overlay:
  "dirs_to d fs \<Longrightarrow> dirs_to d (overlay look (d @ [name]) fs)"
  by (simp add: dirs_to_def overlay_off prefix_snoc_not_prefix)

lemma dirs_to_upd_below:
  "dirs_to d fs \<Longrightarrow> dirs_to d (fs(d @ [name] \<mapsto> e))"
  by (auto simp: dirs_to_def)

lemma entries_lookup_name: "entries_lookup es x xs = Some e \<Longrightarrow> x \<in> fst ` set es"
  by (induction es) (auto split: if_splits)

lemma copyFile_ok:
  assumes "dirs_to d fs" and "fs (d @ [name]) \<noteq> Some DirE"
  shows "copyFile srcp (SFile True c) (d @ [name]) (fs, lg) =
           (Inr True, fs(d @ [name] \<mapsto> FileE c), lg)"
proof -
  have "fs_writeFile c (d @ [name]) fs = Inr (fs(d @ [name] \<mapsto> FileE c))"
    using assms dirs_to_stat [OF assms(1)]
    by (auto simp: fs_writeFile_def split: option.splits entry.splits)
  then show ?thesis
    using assms(1) by (simp add: copyFile_def copyFile_try_def ensureDir_dirs_to fs_copyFile_def)
qed

lemma overlay_file:
  "overlay (src_lookup (SFile r c)) (d @ [name]) fs = fs(d @ [name] \<mapsto> FileE c)"
proof (rule fs_eqI [of _ "d @ [name]"])
  fix q
  show "overlay (src_lookup (SFile r c)) (d @ [name]) fs ((d @ [name]) @ q) =
        (fs(d @ [name] \<mapsto> FileE c)) ((d @ [name]) @ q)"
    unfolding overlay_at by simp
next
  fix p
  assume "\<not> prefix (d @ [name]) p"
  then have "p \<noteq> d @ [name]" by auto
  then show "overlay (src_lookup (SFile r c)) (d @ [name]) fs p = (fs(d @ [name] \<mapsto> FileE c)) p"
    using \<open>\<not> prefix (d @ [name]) p\<close> by (simp add: overlay_off)
qed

text \<open>The state after the first entry of a directory, and what it means for the rest.\<close>

lemma after_first_entry:
  assumes names: "name \<notin> fst ` set rest"
    and dirs: "dirs_to d fs"
    and comp: "compat (look_entries ((name, child) # rest)) d fs"
  defines "fs1 \<equiv> overlay (src_lookup child) (d @ [name]) fs"
  shows "dirs_to d fs1"
    and "compat (look_entries rest) d fs1"
    and "overlay (look_entries rest) d fs1 = overlay (look_entries ((name, child) # rest)) d fs"
    and "compat (src_lookup child) (d @ [name]) fs"
proof -
  show "dirs_to d fs1"
    unfolding fs1_def using dirs by (rule dirs_to_overlay)
  have other: "fs1 (d @ x # xs) = fs (d @ x # xs)" if "x \<noteq> name" for x xs
  proof -
    have "\<not> prefix (d @ [name]) (d @ x # xs)" using that by simp
    then show ?thesis unfolding fs1_def by (rule overlay_off)
  qed
  have same: "fs1 (d @ name # xs) =
      (if src_lookup child xs \<noteq> None then src_lookup child xs else fs (d @ name # xs))" for xs
    using overlay_at [of "src_lookup child" "d @ [name]" fs xs] by (simp add: fs1_def)
  show "compat (look_entries rest) d fs1"
    unfolding compat_def
  proof (intro allI impI)
    fix q e
    assume l: "look_entries rest q = Some e" and ne: "fs1 (d @ q) \<noteq> None"
    then obtain x xs where q: "q = x # xs" and el: "entries_lookup rest x xs = Some e"
      by (cases q) (auto simp: look_entries_def)
    have "x \<noteq> name" using entries_lookup_name [OF el] names by auto
    then have "fs1 (d @ q) = fs (d @ q)" and "look_entries ((name, child) # rest) q = Some e"
      using other q el by (simp_all add: look_entries_def)
    then show "(e = DirE) = (fs1 (d @ q) = Some DirE)"
      using comp ne by (simp add: compat_def)
  qed
  show "overlay (look_entries rest) d fs1 = overlay (look_entries ((name, child) # rest)) d fs"
  proof (rule fs_eqI [of _ d])
    fix q
    show "overlay (look_entries rest) d fs1 (d @ q) =
          overlay (look_entries ((name, child) # rest)) d fs (d @ q)"
    proof (cases q)
      case Nil
      have "\<not> prefix (d @ [name]) d" by simp
      then have "fs1 d = fs d" unfolding fs1_def by (rule overlay_off)
      then show ?thesis using Nil by (simp add: overlay_self look_entries_def)
    next
      case (Cons x xs)
      show ?thesis
      proof (cases "x = name")
        case True
        have "entries_lookup rest name xs = None"
          using entries_lookup_name [of rest name xs] names by (cases "entries_lookup rest name xs") auto
        then show ?thesis using Cons True same by (simp add: overlay_at look_entries_def)
      next
        case False
        then show ?thesis using Cons other by (simp add: overlay_at look_entries_def)
      qed
    qed
  next
    fix p
    assume np: "\<not> prefix d p"
    then have "\<not> prefix (d @ [name]) p" by (auto dest: append_prefixD)
    then have "fs1 p = fs p" unfolding fs1_def by (rule overlay_off)
    then show "overlay (look_entries rest) d fs1 p = overlay (look_entries ((name, child) # rest)) d fs p"
      using np by (simp add: overlay_off)
  qed
  show "compat (src_lookup child) (d @ [name]) fs"
    unfolding compat_def
  proof (intro allI impI)
    fix q e
    assume "src_lookup child q = Some e" and "fs ((d @ [name]) @ q) \<noteq> None"
    then show "(e = DirE) = (fs ((d @ [name]) @ q) = Some DirE)"
      using comp [unfolded compat_def, rule_format, of "name # q" e] by (simp add: look_entries_def)
  qed
qed

lemma into_directory:
  assumes dne: "d \<noteq> []"
    and dirs: "dirs_to (butlast d) fs"
    and comp: "compat (src_lookup (SDir r es)) d fs"
  defines "fs1 \<equiv> fs(d \<mapsto> DirE)"
  shows "ensureDir d fs = Inr fs1"
    and "dirs_to d fs1"
    and "compat (look_entries es) d fs1"
    and "overlay (look_entries es) d fs1 = overlay (src_lookup (SDir r es)) d fs"
proof -
  have d: "d = butlast d @ [last d]" using dne by simp
  have "fs d = None \<or> fs d = Some DirE"
    using comp [unfolded compat_def, rule_format, of "[]" DirE] by (cases "fs d") auto
  then have "fs (butlast d @ [last d]) = None \<or> fs (butlast d @ [last d]) = Some DirE"
    using d by simp
  from ensureDir_child [OF dirs this] show "ensureDir d fs = Inr fs1"
    using d by (simp add: fs1_def)
  show "dirs_to d fs1"
    using dirs_to_snoc [OF dirs, of "last d"] d by (simp add: fs1_def)
  have below: "fs1 (d @ x # xs) = fs (d @ x # xs)" for x xs
    by (simp add: fs1_def)
  show "compat (look_entries es) d fs1"
    unfolding compat_def
  proof (intro allI impI)
    fix q e
    assume l: "look_entries es q = Some e" and ne: "fs1 (d @ q) \<noteq> None"
    then obtain x xs where q: "q = x # xs" and el: "entries_lookup es x xs = Some e"
      by (cases q) (auto simp: look_entries_def)
    then show "(e = DirE) = (fs1 (d @ q) = Some DirE)"
      using comp [unfolded compat_def, rule_format, of q e] ne below by simp
  qed
  show "overlay (look_entries es) d fs1 = overlay (src_lookup (SDir r es)) d fs"
  proof (rule fs_eqI [of _ d])
    fix q
    show "overlay (look_entries es) d fs1 (d @ q) = overlay (src_lookup (SDir r es)) d fs (d @ q)"
    proof (cases q)
      case Nil
      then show ?thesis by (simp add: overlay_self look_entries_def fs1_def)
    next
      case (Cons x xs)
      then show ?thesis using below by (simp add: overlay_at look_entries_def)
    qed
  next
    fix p
    assume np: "\<not> prefix d p"
    then have "p \<noteq> d" by auto
    then show "overlay (look_entries es) d fs1 p = overlay (src_lookup (SDir r es)) d fs p"
      using np by (simp add: overlay_off fs1_def)
  qed
qed

lemma copy_overlay:
  "well_formed n \<Longrightarrow> isDirectory n \<Longrightarrow> d \<noteq> [] \<Longrightarrow> dirs_to (butlast d) (fst st) \<Longrightarrow>
     compat (src_lookup n) d (fst st) \<Longrightarrow>
     copyDirectory srcp n d st = (Inr (), overlay (src_lookup n) d (fst st), snd st)"
  "well_formed_entries es \<Longrightarrow> distinct (map fst es) \<Longrightarrow> dirs_to d (fst st) \<Longrightarrow>
     compat (look_entries es) d (fst st) \<Longrightarrow>
     copy_entries srcp es d st = (Inr (), overlay (look_entries es) d (fst st), snd st)"
proof (induction srcp n d st and srcp es d st rule: copyDirectory_copy_entries.induct)
  case (1 srcp r c dest st)
  then show ?case by simp
next
  case (2 srcp r es dest st)
  let ?fs1 = "(fst st)(dest \<mapsto> DirE)"
  note into = into_directory [OF "2.prems"(3,4,5)]
  have r: "r" and wf: "well_formed_entries es" and dist: "distinct (map fst es)"
    using "2.prems"(1) by simp_all
  have nnr: "\<not> \<not> r" using r by simp
  have p1: "dirs_to dest (fst (?fs1, snd st))" using into(2) by (simp only: fst_conv)
  have p2: "compat (look_entries es) dest (fst (?fs1, snd st))" using into(3) by (simp only: fst_conv)
  have "copy_entries srcp es dest (?fs1, snd st) =
      (Inr (), overlay (look_entries es) dest (fst (?fs1, snd st)), snd (?fs1, snd st))"
    by (rule "2.IH" [OF into(1) nnr wf dist p1 p2])
  then have "copy_entries srcp es dest (?fs1, snd st) =
      (Inr (), overlay (src_lookup (SDir r es)) dest (fst st), snd st)"
    using into(4) by (simp only: fst_conv snd_conv)
  then show ?case
    using into(1) r by (simp del: fun_upd_apply)
next
  case (3 srcp dest st)
  have "overlay (look_entries []) dest (fst st) = fst st"
    by (rule ext) (simp add: overlay_def look_entries_def split: list.splits)
  then show ?case by simp
next
  case (4 srcp name child rest dest st)
  let ?fs1 = "overlay (src_lookup child) (dest @ [name]) (fst st)"
  have names: "name \<notin> fst ` set rest" and dist: "distinct (map fst rest)"
    and wfc: "well_formed child" and wfr: "well_formed_entries rest"
    using "4.prems"(1,2) by simp_all
  note after = after_first_entry [OF names "4.prems"(3,4)]
  have first: "(if isDirectory child
      then copyDirectory (srcp @ [name]) child (dest @ [name]) st
      else (case copyFile (srcp @ [name]) child (dest @ [name]) st of (Inl e, st1) \<Rightarrow> (Inl e, st1)
            | (Inr b, st1) \<Rightarrow> (Inr (), st1))) = (Inr (), ?fs1, snd st)"
  proof (cases child)
    case (SFile r c)
    then have r: "r" using wfc by simp
    have "fst st (dest @ [name]) \<noteq> Some DirE"
      using after(4) [unfolded compat_def, rule_format, of "[]" "FileE c"] SFile by auto
    from copyFile_ok [OF "4.prems"(3) this, of "srcp @ [name]" c "snd st"]
    show ?thesis using SFile r overlay_file [of r c dest name "fst st"] by simp
  next
    case (SDir r es)
    then have dir: "isDirectory child" by simp
    show ?thesis
      using "4.IH"(1) [OF dir wfc dir] "4.prems"(3) after(4) dir by simp
  qed
  show ?case
  proof (cases "isDirectory child")
    case True
    then have c: "copyDirectory (srcp @ [name]) child (dest @ [name]) st = (Inr (), ?fs1, snd st)"
      using first by simp
    have p1: "dirs_to dest (fst (?fs1, snd st))" using after(1) by (simp only: fst_conv)
    have p2: "compat (look_entries rest) dest (fst (?fs1, snd st))"
      using after(2) by (simp only: fst_conv)
    have "copy_entries srcp rest dest (?fs1, snd st) =
        (Inr (), overlay (look_entries rest) dest (fst (?fs1, snd st)), snd (?fs1, snd st))"
      by (rule "4.IH"(2) [OF True c [symmetric] refl wfr dist p1 p2])
    then have "copy_entries srcp rest dest (?fs1, snd st) =
        (Inr (), overlay (look_entries ((name, child) # rest)) dest (fst st), snd st)"
      using after(3) by (simp only: fst_conv snd_conv)
    then show ?thesis using True c by simp
  next
    case False
    obtain b where c: "copyFile (srcp @ [name]) child (dest @ [name]) st = (Inr b, ?fs1, snd st)"
      using first False
      by (cases "copyFile (srcp @ [name]) child (dest @ [name]) st")
        (auto split: sum.splits)
    have p1: "dirs_to dest (fst (?fs1, snd st))" using after(1) by (simp only: fst_conv)
    have p2: "compat (look_entries rest) dest (fst (?fs1, snd st))"
      using after(2) by (simp only: fst_conv)
    have "copy_entries srcp rest dest (?fs1, snd st) =
        (Inr (), overlay (look_entries rest) dest (fst (?fs1, snd st)), snd (?fs1, snd st))"
      by (rule "4.IH"(3) [OF False c [symmetric] refl wfr dist p1 p2])
    then have "copy_entries srcp rest dest (?fs1, snd st) =
        (Inr (), overlay (look_entries ((name, child) # rest)) dest (fst st), snd st)"
      using after(3) by (simp only: fst_conv snd_conv)
    then show ?thesis using False c by simp
  qed
qed

lemma mkdir_from_creates:
  "(\<forall>p. prefix p (pre @ cs) \<and> length pre < length p \<longrightarrow> fs p = None \<or> fs p = Some DirE) \<Longrightarrow>
   mkdir_from pre cs fs =
     Inr (\<lambda>p. if prefix p (pre @ cs) \<and> length pre < length p then Some DirE else fs p)"
proof (induction cs arbitrary: pre fs)
  case Nil
  have "(\<lambda>p. if prefix p (pre @ []) \<and> length pre < length p then Some DirE else fs p) = fs"
    by (intro ext) (auto dest: prefix_length_le)
  then show ?case by simp
next
  case (Cons c cs)
  let ?p0 = "pre @ [c]"
  let ?fs1 = "fs(?p0 \<mapsto> DirE)"
  have p0: "fs ?p0 = None \<or> fs ?p0 = Some DirE"
    using Cons.prems [rule_format, of ?p0] by simp
  have hyp: "\<forall>p. prefix p (?p0 @ cs) \<and> length ?p0 < length p \<longrightarrow> ?fs1 p = None \<or> ?fs1 p = Some DirE"
    using Cons.prems by auto
  have step: "mkdir_from pre (c # cs) fs = mkdir_from ?p0 cs ?fs1"
    using p0 by (auto simp: fun_upd_idem)
  have "(\<lambda>p. if prefix p (?p0 @ cs) \<and> length ?p0 < length p then Some DirE else ?fs1 p) =
        (\<lambda>p. if prefix p (pre @ c # cs) \<and> length pre < length p then Some DirE else fs p)"
  proof
    fix p
    show "(if prefix p (?p0 @ cs) \<and> length ?p0 < length p then Some DirE else ?fs1 p) =
          (if prefix p (pre @ c # cs) \<and> length pre < length p then Some DirE else fs p)"
    proof (cases "prefix p (pre @ c # cs) \<and> length pre < length p")
      case True
      show ?thesis
      proof (cases "length ?p0 < length p")
        case True
        then show ?thesis using \<open>prefix p (pre @ c # cs) \<and> length pre < length p\<close> by simp
      next
        case False
        then have len: "length p = Suc (length pre)" using True by simp
        from True obtain zs where "pre @ c # cs = p @ zs" by (auto elim: prefixE)
        then have "take (Suc (length pre)) (pre @ c # cs) = take (Suc (length pre)) (p @ zs)"
          by simp
        then have "p = ?p0" using len by simp
        then show ?thesis using True by simp
      qed
    next
      case False
      then have "p \<noteq> ?p0" by auto
      then show ?thesis using False by auto
    qed
  qed
  then show ?case
    using step Cons.IH [OF hyp] by simp
qed

lemma ensureDir_creates:
  assumes "\<forall>p. p \<noteq> [] \<and> prefix p d \<longrightarrow> fs p = None \<or> fs p = Some DirE"
  shows "ensureDir d fs = Inr (with_dirs d fs)"
proof -
  have "(\<lambda>p. if prefix p ([] @ d) \<and> length ([] :: path) < length p then Some DirE else fs p) =
        with_dirs d fs"
    by (rule ext) (auto simp: with_dirs_def)
  then show ?thesis
    using mkdir_from_creates [of "[]" d fs] assms by (simp add: ensureDir_def fs_mkdir_def)
qed

lemma dirs_to_with_dirs: "dirs_to d (with_dirs d fs)"
  by (simp add: dirs_to_def with_dirs_def)

lemma with_dirs_below: "q \<noteq> [] \<Longrightarrow> with_dirs d fs (d @ q) = fs (d @ q)"
  by (auto simp: with_dirs_def dest: prefix_length_le)

lemma dirs_to_butlast: "dirs_to d fs \<Longrightarrow> dirs_to (butlast d) fs"
  by (auto simp: dirs_to_def dest: prefix_order.trans [OF _ prefixeq_butlast])

lemma overlay_same:
  assumes "\<And>q. look q \<noteq> None \<Longrightarrow> fs (d @ q) = look q"
  shows "overlay look d fs = fs"
proof (rule fs_eqI [of _ d])
  fix q
  show "overlay look d fs (d @ q) = fs (d @ q)"
    using assms [of q] by (simp add: overlay_at)
next
  fix p
  assume "\<not> prefix d p"
  then show "overlay look d fs p = fs p" by (rule overlay_off)
qed

lemma copy_into_empty:
  assumes wf: "well_formed (SDir r es)" and empty: "empty_destination d fs"
  defines "fs1 \<equiv> overlay (look_entries es) d (with_dirs d fs)"
  shows "copyDirectory srcp (SDir r es) d (fs, lg) = (Inr (), fs1, lg)"
    and "fs1 (d @ q) = src_lookup (SDir r es) q"
    and "\<not> prefix d p \<Longrightarrow> fs1 p = with_dirs d fs p"
    and "copyDirectory srcp (SDir r es) d (fs1, lg') = (Inr (), fs1, lg')"
proof -
  let ?fs0 = "with_dirs d fs"
  have r: r and wfe: "well_formed_entries es" and dist: "distinct (map fst es)"
    using wf by simp_all
  have ens: "ensureDir d fs = Inr ?fs0"
    using empty by (intro ensureDir_creates) (simp add: empty_destination_def)
  have below: "?fs0 (d @ x # xs) = None" for x xs
    using empty with_dirs_below [of "x # xs" d fs] by (simp add: empty_destination_def)
  have comp: "compat (look_entries es) d ?fs0"
    unfolding compat_def
  proof (intro allI impI)
    fix q e
    assume "look_entries es q = Some e" and "?fs0 (d @ q) \<noteq> None"
    then show "(e = DirE) = (?fs0 (d @ q) = Some DirE)"
      using below by (cases q) (simp_all add: look_entries_def)
  qed
  have "copy_entries srcp es d (?fs0, lg) =
      (Inr (), overlay (look_entries es) d (fst (?fs0, lg)), snd (?fs0, lg))"
    by (rule copy_overlay(2) [OF wfe dist]) (simp_all only: fst_conv dirs_to_with_dirs comp)
  then show first: "copyDirectory srcp (SDir r es) d (fs, lg) = (Inr (), fs1, lg)"
    using ens r by (simp add: fs1_def)
  show at: "fs1 (d @ q) = src_lookup (SDir r es) q" for q
  proof (cases q)
    case Nil
    have "?fs0 d = Some DirE"
      using empty by (simp add: with_dirs_def empty_destination_def)
    then show ?thesis using Nil by (simp add: fs1_def overlay_self look_entries_def)
  next
    case (Cons x xs)
    then show ?thesis using below by (simp add: fs1_def overlay_at look_entries_def)
  qed
  show "\<not> prefix d p \<Longrightarrow> fs1 p = with_dirs d fs p"
    by (simp add: fs1_def overlay_off)
  have d1: "dirs_to d fs1"
    unfolding dirs_to_def
  proof (intro allI impI)
    fix p
    assume p: "p \<noteq> [] \<and> prefix p d"
    show "fs1 p = Some DirE"
    proof (cases "p = d")
      case True
      then show ?thesis using at [of "[]"] by simp
    next
      case False
      then have "\<not> prefix d p" using p by (auto dest: prefix_order.antisym)
      then have "fs1 p = ?fs0 p" by (simp add: fs1_def overlay_off)
      then show ?thesis using p by (simp add: with_dirs_def)
    qed
  qed
  have c1: "compat (src_lookup (SDir r es)) d fs1"
    unfolding compat_def by (auto simp: at)
  have dne: "d \<noteq> []" using empty by (simp add: empty_destination_def)
  have "copyDirectory srcp (SDir r es) d (fs1, lg') =
      (Inr (), overlay (src_lookup (SDir r es)) d (fst (fs1, lg')), snd (fs1, lg'))"
    by (rule copy_overlay(1) [OF wf _ dne])
      (simp_all only: fst_conv isDirectory.simps dirs_to_butlast [OF d1] c1)
  moreover have "overlay (src_lookup (SDir r es)) d fs1 = fs1"
    by (rule overlay_same) (simp add: at)
  ultimately show "copyDirectory srcp (SDir r es) d (fs1, lg') = (Inr (), fs1, lg')"
    by simp
qed

lemma length_file_paths:
  "length (file_paths n) = count_files n"
  "length (file_paths_entries es) = count_files_entries es"
  by (induction n and es rule: count_files_count_files_entries.induct) simp_all

lemma file_paths_lookup:
  "well_formed n \<Longrightarrow>
     distinct (file_paths n) \<and> set (file_paths n) = {q. \<exists>c. src_lookup n q = Some (FileE c)}"
  "well_formed_entries es \<Longrightarrow> distinct (map fst es) \<Longrightarrow>
     distinct (file_paths_entries es)
     \<and> set (file_paths_entries es) = {q. \<exists>c. look_entries es q = Some (FileE c)}"
proof (induction n and es rule: well_formed_well_formed_entries.induct)
  case (1 r c)
  then show ?case by auto
next
  case (2 r es)
  have "{q. \<exists>c. src_lookup (SDir r es) q = Some (FileE c)} =
        {q. \<exists>c. look_entries es q = Some (FileE c)}"
  proof (rule Collect_cong)
    fix q
    show "(\<exists>c. src_lookup (SDir r es) q = Some (FileE c)) = (\<exists>c. look_entries es q = Some (FileE c))"
      by (cases q) (simp_all add: look_entries_def)
  qed
  then show ?case using 2 by simp
next
  case 3
  then show ?case by (simp add: look_entries_def split: list.splits)
next
  case (4 name child rest)
  have names: "name \<notin> fst ` set rest" and dist: "distinct (map fst rest)"
    and wfc: "well_formed child" and wfr: "well_formed_entries rest"
    using "4.prems" by simp_all
  note c = "4.IH"(1) [OF wfc]
  note r = "4.IH"(2) [OF wfr dist]
  have rest_heads: "q \<in> set (file_paths_entries rest) \<Longrightarrow> \<exists>x xs. q = x # xs \<and> x \<noteq> name" for q
  proof -
    assume "q \<in> set (file_paths_entries rest)"
    then obtain c where "look_entries rest q = Some (FileE c)" using r by auto
    then obtain x xs where "q = x # xs" and "entries_lookup rest x xs = Some (FileE c)"
      by (cases q) (auto simp: look_entries_def)
    then show ?thesis using entries_lookup_name [of rest x xs] names by auto
  qed
  have disj: "set (map ((#) name) (file_paths child)) \<inter> set (file_paths_entries rest) = {}"
    using rest_heads by auto
  have d: "distinct (file_paths_entries ((name, child) # rest))"
    using c r disj by (simp add: distinct_map)
  have "set (file_paths_entries ((name, child) # rest)) =
        {q. \<exists>c. look_entries ((name, child) # rest) q = Some (FileE c)}"
  proof (rule set_eqI)
    fix q
    show "q \<in> set (file_paths_entries ((name, child) # rest)) \<longleftrightarrow>
          q \<in> {q. \<exists>c. look_entries ((name, child) # rest) q = Some (FileE c)}"
    proof (cases q)
      case Nil
      then show ?thesis using rest_heads [of "[]"] by (auto simp: look_entries_def)
    next
      case (Cons x xs)
      show ?thesis
      proof (cases "x = name")
        case True
        have "x # xs \<notin> set (file_paths_entries rest)"
          using rest_heads [of "x # xs"] True by auto
        then show ?thesis using Cons True c by (auto simp: look_entries_def)
      next
        case False
        have "(x # xs \<in> set (file_paths_entries rest)) =
              (\<exists>c. look_entries rest (x # xs) = Some (FileE c))"
          using r by auto
        then show ?thesis using Cons False by (auto simp: look_entries_def)
      qed
    qed
  qed
  with d show ?case by simp
qed

lemma card_files:
  assumes "well_formed n"
  shows "card {q. \<exists>c. src_lookup n q = Some (FileE c)} = count_files n"
proof -
  have d: "distinct (file_paths n)"
    and s: "set (file_paths n) = {q. \<exists>c. src_lookup n q = Some (FileE c)}"
    using file_paths_lookup(1) [OF assms] by blast+
  have "card (set (file_paths n)) = length (file_paths n)"
    using d by (rule distinct_card)
  then show ?thesis
    unfolding s by (simp only: length_file_paths)
qed

text \<open>
  C8.  Let the source be a directory tree that can be read, with distinct names in each
  directory, and let nothing exist at or below the destination \<open>d\<close> except perhaps \<open>d\<close>
  itself and its ancestors, as directories.  Then \<^verbatim>\<open>copyDirectory\<close> ends without a
  warning; below \<open>d\<close> the file system is then exactly the source tree (the same
  directories, and every file with the bytes of the source), so it holds as many files
  as the source; and a second \<^verbatim>\<open>copyDirectory\<close> leaves it as it is.  \<^verbatim>\<open>ensureDir\<close> on a
  directory that exists returns without error and changes nothing.
\<close>

theorem copyDirectory_mirrors_tree:
  assumes "well_formed src" and "isDirectory src" and "empty_destination d fs"
    and "copyDirectory srcp src d (fs, lg) = (r, fs1, lg1)"
  shows "r = Inr () \<and> lg1 = lg
    \<and> (\<forall>q. fs1 (d @ q) = src_lookup src q)
    \<and> card {q. \<exists>c. fs1 (d @ q) = Some (FileE c)} = count_files src
    \<and> copyDirectory srcp src d (fs1, lg1) = (Inr (), fs1, lg1)
    \<and> (dirs_to p fs0 \<longrightarrow> ensureDir p fs0 = Inr fs0)"
proof -
  obtain rd es where src: "src = SDir rd es"
    using assms(2) by (cases src) simp_all
  note ci = copy_into_empty [OF assms(1) [unfolded src] assms(3)]
  have res: "r = Inr ()" "lg1 = lg" "fs1 = overlay (look_entries es) d (with_dirs d fs)"
    using ci(1) [of srcp lg] assms(4) by (simp_all add: src)
  have at: "\<forall>q. fs1 (d @ q) = src_lookup src q"
    using ci(2) by (simp add: res(3) src)
  have "card {q. \<exists>c. fs1 (d @ q) = Some (FileE c)} = count_files src"
    using card_files [OF assms(1)] at by simp
  moreover have "copyDirectory srcp src d (fs1, lg1) = (Inr (), fs1, lg1)"
    using ci(4) [of srcp lg1] by (simp add: res(3) src)
  moreover have "dirs_to p fs0 \<longrightarrow> ensureDir p fs0 = Inr fs0"
    by (simp add: ensureDir_dirs_to)
  ultimately show ?thesis using res(1,2) at by blast
qed

theorem copyDirectory_mirrors_tree_witness:
  "well_formed dist_full \<and> isDirectory dist_full \<and> empty_destination publicMonacoPath Map.empty
   \<and> copyDirectory monacoDistPath dist_full publicMonacoPath (Map.empty, []) = (Inr (), fs_full, [])
   \<and> count_files dist_full = 8
   \<and> card {q. \<exists>c. fs_full (publicMonacoPath @ q) = Some (FileE c)} = 8
   \<and> fs_full (publicMonacoPath @ [''lsp'', ''css'', ''worker.mjs'']) = Some (FileE (Bytes ''css''))
   \<and> copyDirectory monacoDistPath dist_full publicMonacoPath (fs_full, []) = (Inr (), fs_full, [])
   \<and> dirs_to [''public'', ''monaco''] fs_blocked
   \<and> ensureDir [''public'', ''monaco''] fs_blocked = Inr fs_blocked"
proof -
  have w: "well_formed dist_full" by (simp add: dist_full_def)
  have i: "isDirectory dist_full" by (simp add: dist_full_def)
  have e: "empty_destination publicMonacoPath Map.empty"
    by (simp add: empty_destination_def publicMonacoPath_def)
  have n: "count_files dist_full = 8" by (simp add: dist_full_def)
  note th = copyDirectory_mirrors_tree [OF w i e copy_full_log]
  have at: "\<forall>q. fs_full (publicMonacoPath @ q) = src_lookup dist_full q"
    using th by blast
  have "card {q. \<exists>c. fs_full (publicMonacoPath @ q) = Some (FileE c)} = count_files dist_full"
    using th by blast
  then have c: "card {q. \<exists>c. fs_full (publicMonacoPath @ q) = Some (FileE c)} = 8"
    by (simp only: n)
  have "src_lookup dist_full [''lsp'', ''css'', ''worker.mjs''] = Some (FileE (Bytes ''css''))"
    by (simp add: dist_full_def)
  then have f: "fs_full (publicMonacoPath @ [''lsp'', ''css'', ''worker.mjs'']) =
      Some (FileE (Bytes ''css''))"
    using at by simp
  have again: "copyDirectory monacoDistPath dist_full publicMonacoPath (fs_full, []) =
      (Inr (), fs_full, [])"
    using th by blast
  have dirs: "dirs_to [''public'', ''monaco''] fs_blocked"
    by (auto simp: dirs_to_def prefix_Cons fs_blocked_def)
  have ens: "ensureDir [''public'', ''monaco''] fs_blocked = Inr fs_blocked"
    using th dirs by blast
  show ?thesis
    using w i e copy_full_log n c f again dirs ens by blast
qed

section \<open>Properties of the server\<close>

lemma suffix_last: "suffix t s \<Longrightarrow> t \<noteq> [] \<Longrightarrow> last s = last t"
  by (auto simp: suffix_def)

lemma endsWith_not_slash:
  "endsWith p t \<Longrightarrow> t \<noteq> [] \<Longrightarrow> last t \<noteq> CHR ''/'' \<Longrightarrow> \<not> endsWith p ''/''"
  unfolding endsWith_def using suffix_last [of t p] suffix_last [of "''/''" p] by auto

lemma endsWith_append: "endsWith p t \<Longrightarrow> endsWith (root @ p) t"
  unfolding endsWith_def by (rule suffix_appendI)

lemma endsWith_mjs_not_wasm: "endsWith p ''.mjs'' \<Longrightarrow> \<not> endsWith p ''.wasm''"
  unfolding endsWith_def using suffix_last [of "''.mjs''" p] suffix_last [of "''.wasm''" p] by auto

lemma lower_char_dot: "lower_char c = CHR ''.'' \<longleftrightarrow> c = CHR ''.''"
  by (auto simp: lower_char_def split: if_splits)

lemma includes_dot_lower: "includes_dot (toLowerCase p) = includes_dot p"
proof -
  have "CHR ''.'' \<in> lower_char ` set p \<longleftrightarrow> CHR ''.'' \<in> set p"
  proof
    assume "CHR ''.'' \<in> lower_char ` set p"
    then obtain c where "c \<in> set p" and "lower_char c = CHR ''.''" by auto
    then show "CHR ''.'' \<in> set p" by (simp add: lower_char_dot)
  next
    assume "CHR ''.'' \<in> set p"
    moreover have "lower_char CHR ''.'' = CHR ''.''" by (simp add: lower_char_dot)
    ultimately show "CHR ''.'' \<in> lower_char ` set p" by force
  qed
  then show ?thesis by (simp add: includes_dot_def toLowerCase_def)
qed

lemma endsWith_includes_dot: "endsWith p t \<Longrightarrow> includes_dot t \<Longrightarrow> includes_dot p"
  by (auto simp: endsWith_def includes_dot_def suffix_def)

lemma route_star_ext_dot: "route_star_ext ext p \<Longrightarrow> includes_dot ext \<Longrightarrow> includes_dot p"
proof -
  assume "route_star_ext ext p" and d: "includes_dot ext"
  then have "endsWith (toLowerCase p) ext \<or> endsWith (toLowerCase p) (ext @ ''/'')"
    by (simp add: route_star_ext_def)
  moreover have "includes_dot (ext @ ''/'')" using d by (simp add: includes_dot_def)
  ultimately have "includes_dot (toLowerCase p)"
    using d endsWith_includes_dot by blast
  then show ?thesis by (simp add: includes_dot_lower)
qed

lemma route_no_dot: "route pat p \<Longrightarrow> \<not> includes_dot pat \<Longrightarrow> \<not> includes_dot p"
proof -
  assume "route pat p" and d: "\<not> includes_dot pat"
  then have "toLowerCase p = pat \<or> toLowerCase p = pat @ ''/''" by (simp add: route_def)
  moreover have "\<not> includes_dot (pat @ ''/'')" using d by (simp add: includes_dot_def)
  ultimately have "\<not> includes_dot (toLowerCase p)" using d by auto
  then show ?thesis by (simp add: includes_dot_lower)
qed

lemma static_find_file:
  assumes "static_find d root sub = Served fp b" and "\<not> endsWith sub ''/''"
  shows "fp = root @ sub"
  using assms by (auto simp: static_find_def split: option.splits dnode.splits)

lemma mount_suffix:
  assumes m: "mount pat p = Some sub" and suf: "suffix t p" and ne: "t \<noteq> []"
    and slash: "CHR ''/'' \<notin> set t" and hd: "\<forall>c. lower_char c \<in> set pat \<longrightarrow> c \<noteq> hd t"
  shows "suffix t sub"
proof -
  let ?m = "take (length pat) p"
  have sub: "sub = drop (length pat) p" and low: "toLowerCase ?m = pat"
    and sep: "length p = length pat \<or> p ! length pat = CHR ''/''"
    using m by (auto simp: mount_def split: if_splits)
  have "suffix t (?m @ sub)" using suf sub by simp
  then consider "suffix t sub" | xs where "t = xs @ sub" and "suffix xs ?m"
    by (auto simp: suffix_append)
  then show ?thesis
  proof cases
    case 1
    then show ?thesis .
  next
    case 2
    show ?thesis
    proof (cases "sub = []")
      case True
      then have "suffix t ?m" using 2 by simp
      then have "hd t \<in> set ?m" using ne by (cases t) (auto simp: suffix_def)
      moreover have "set (toLowerCase ?m) = lower_char ` set ?m"
        by (simp add: toLowerCase_def)
      then have "set pat = lower_char ` set ?m"
        by (simp only: low)
      ultimately have "lower_char (hd t) \<in> set pat" by simp
      then show ?thesis using hd by blast
    next
      case False
      then have len: "length pat < length p" using sub by simp
      then have "p ! length pat = CHR ''/''" using sep by simp
      moreover have "hd sub = p ! length pat"
        using len sub by (simp add: hd_drop_conv_nth)
      ultimately have "CHR ''/'' \<in> set sub" using False by (cases sub) auto
      then have "CHR ''/'' \<in> set t" using 2 by simp
      then show ?thesis using slash by simp
    qed
  qed
qed

lemma pat_monaco_no_dot: "\<forall>c. lower_char c \<in> set ''/monaco'' \<longrightarrow> c \<noteq> CHR ''.''"
  by (auto simp: lower_char_def)

lemma mount_monaco_mjs:
  "mount ''/monaco'' p = Some sub \<Longrightarrow> endsWith p ''.mjs'' \<Longrightarrow> endsWith sub ''.mjs''"
  unfolding endsWith_def using mount_suffix [of "''/monaco''" p sub "''.mjs''"] pat_monaco_no_dot
  by simp

lemma mount_monaco_wasm:
  "mount ''/monaco'' p = Some sub \<Longrightarrow> endsWith p ''.wasm'' \<Longrightarrow> endsWith sub ''.wasm''"
  unfolding endsWith_def using mount_suffix [of "''/monaco''" p sub "''.wasm''"] pat_monaco_no_dot
  by simp

lemma no_dot_no_script_route:
  assumes "\<not> includes_dot p"
  shows "\<not> route_star_ext ''.js'' p" and "\<not> route_star_ext ''.mjs'' p"
proof -
  have "includes_dot ''.js''" and "includes_dot ''.mjs''" by (simp_all add: includes_dot_def)
  then show "\<not> route_star_ext ''.js'' p" and "\<not> route_star_ext ''.mjs'' p"
    using assms route_star_ext_dot by blast+
qed

lemma dot_no_fixed_route:
  assumes "includes_dot p"
  shows "\<not> route ''/health'' p" and "\<not> route ''/debug/files'' p"
proof -
  have "\<not> includes_dot ''/health''" and "\<not> includes_dot ''/debug/files''"
    by (simp_all add: includes_dot_def)
  then show "\<not> route ''/health'' p" and "\<not> route ''/debug/files'' p"
    using assms route_no_dot by blast+
qed

lemma handle_served:
  assumes "static_chain e (req_path r) = Served fp b"
  shows "handle e r =
    \<lparr>res_status = 200,
     res_headers = send_type e fp (setHeaders fp (mime_middleware (req_path r) Map.empty)),
     res_body = FileBody fp b\<rparr>"
  using assms
  by (auto simp: handle_def static_chain_def express_static_def Let_def
      split: found.splits option.splits)

lemma handle_passed:
  assumes "static_chain e (req_path r) = Passed"
  shows "handle e r = routes e r (mime_middleware (req_path r) Map.empty)"
  using assms
  by (auto simp: handle_def static_chain_def express_static_def Let_def
      split: found.splits option.splits)

lemma served_extension:
  assumes "static_chain e p = Served fp b" and "endsWith p ext" and "ext \<noteq> []"
    and "last ext \<noteq> CHR ''/''"
    and "\<And>sub. mount ''/monaco'' p = Some sub \<Longrightarrow> endsWith sub ext"
  shows "endsWith fp ext"
proof (cases "static_find (env_disk e) public_root p = Passed")
  case False
  then have "static_find (env_disk e) public_root p = Served fp b"
    using assms(1) by (auto simp: static_chain_def split: found.splits)
  then have "fp = public_root @ p"
    using endsWith_not_slash [OF assms(2,3,4)] by (rule static_find_file)
  then show ?thesis using assms(2) by (simp add: endsWith_append)
next
  case True
  then obtain sub where m: "mount ''/monaco'' p = Some sub"
    and f: "static_find (env_disk e) dist_root sub = Served fp b"
    using assms(1) by (auto simp: static_chain_def split: option.splits)
  have sub: "endsWith sub ext" using m by (rule assms(5))
  have "fp = dist_root @ sub"
    using f endsWith_not_slash [OF sub assms(3,4)] by (rule static_find_file)
  then show ?thesis using sub by (simp add: endsWith_append)
qed

lemma content_type_mjs:
  "endsWith fp ''.mjs'' \<Longrightarrow>
   send_type e fp (setHeaders fp h) ''Content-Type'' = Some ''application/javascript''"
  by (simp add: send_type_def setHeaders_def endsWith_mjs_not_wasm)

lemma content_type_wasm:
  "endsWith fp ''.wasm'' \<Longrightarrow>
   send_type e fp (setHeaders fp h) ''Content-Type'' = Some ''application/wasm''"
  by (simp add: send_type_def setHeaders_def)

text \<open>
  C4.  When \<^verbatim>\<open>express.static\<close> finds a regular file for the path of a GET request (under
  \<^verbatim>\<open>public\<close>, or under the root of the \<^verbatim>\<open>/monaco\<close> mount), the file is sent with status
  200; if the path ends in \<^verbatim>\<open>.mjs\<close> the response's \<^verbatim>\<open>Content-Type\<close> is exactly
  \<^verbatim>\<open>application/javascript\<close>, and if it ends in \<^verbatim>\<open>.wasm\<close> exactly \<^verbatim>\<open>application/wasm\<close>.
\<close>

theorem static_module_content_type:
  assumes "static_chain e (req_path r) = Served fp b"
  shows "res_status (handle e r) = 200 \<and> res_body (handle e r) = FileBody fp b
    \<and> (endsWith (req_path r) ''.mjs'' \<longrightarrow>
         res_headers (handle e r) ''Content-Type'' = Some ''application/javascript'')
    \<and> (endsWith (req_path r) ''.wasm'' \<longrightarrow>
         res_headers (handle e r) ''Content-Type'' = Some ''application/wasm'')"
proof (intro conjI impI)
  note h = handle_served [OF assms]
  show "res_status (handle e r) = 200" by (simp add: h)
  show "res_body (handle e r) = FileBody fp b" by (simp add: h)
  show "res_headers (handle e r) ''Content-Type'' = Some ''application/javascript''"
    if "endsWith (req_path r) ''.mjs''"
  proof -
    have "endsWith fp ''.mjs''"
      using assms that by (rule served_extension) (simp_all add: mount_monaco_mjs that)
    then show ?thesis by (simp add: h content_type_mjs)
  qed
  show "res_headers (handle e r) ''Content-Type'' = Some ''application/wasm''"
    if "endsWith (req_path r) ''.wasm''"
  proof -
    have "endsWith fp ''.wasm''"
      using assms that by (rule served_extension) (simp_all add: mount_monaco_wasm that)
    then show ?thesis by (simp add: h content_type_wasm)
  qed
qed

text \<open>
  C5.  A GET request whose path contains a dot and for which neither static middleware
  finds anything is answered with status 404 by one of the last three routes, with one
  of their three texts as the body, never with a file.
\<close>

theorem missing_asset_is_404:
  assumes "includes_dot (req_path r)" and "static_chain e (req_path r) = Passed"
  shows "res_status (handle e r) = 404
    \<and> res_body (handle e r) \<in> {Text ''JavaScript file not found'', Text ''Module file not found'',
         Text ''File not found''}
    \<and> res_body (handle e r) \<noteq> FileBody fp b"
proof -
  have "\<not> route ''/health'' (req_path r)" and "\<not> route ''/debug/files'' (req_path r)"
    using assms(1) by (rule dot_no_fixed_route)+
  then show ?thesis
    using assms by (auto simp: handle_passed routes_def fallback_def)
qed

text \<open>
  C6, as amended.  A GET request whose path contains no dot, whose client accepts HTML,
  for which the static middlewares find nothing, or find \<^verbatim>\<open>public/index.html\<close> itself
  (as they do for the path \<^verbatim>\<open>/\<close>), and which is neither \<^verbatim>\<open>/health\<close> nor
  \<^verbatim>\<open>/debug/files\<close>, is answered with status 200 and the file \<^verbatim>\<open>public/index.html\<close>,
  when that file exists.
\<close>

theorem navigation_gets_default_document:
  assumes "\<not> includes_dot (req_path r)" and "req_accepts_html r"
    and "static_chain e (req_path r) = Passed \<or> static_chain e (req_path r) = Served index_html b"
    and "\<not> route ''/health'' (req_path r)" and "\<not> route ''/debug/files'' (req_path r)"
    and "env_disk e index_html = Some (RegularFile b)"
  shows "res_status (handle e r) = 200 \<and> res_body (handle e r) = FileBody index_html b"
proof (cases "static_chain e (req_path r) = Passed")
  case True
  have "\<not> route_star_ext ''.js'' (req_path r)" and "\<not> route_star_ext ''.mjs'' (req_path r)"
    using assms(1) by (rule no_dot_no_script_route)+
  then show ?thesis
    using assms(1,2,4,5,6) True by (simp add: handle_passed routes_def fallback_def)
next
  case False
  then have "static_chain e (req_path r) = Served index_html b"
    using assms(3) by simp
  then show ?thesis by (simp add: handle_served)
qed

text \<open>
  C10, as amended.  A GET request whose path contains no dot, whose client does not
  accept HTML, for which neither static middleware finds anything and which is neither
  \<^verbatim>\<open>/health\<close> nor \<^verbatim>\<open>/debug/files\<close>, is answered with status 404 and the text
  \<^verbatim>\<open>File not found\<close>.  The last route sends a file only to a client that accepts HTML
  and for a path without a dot.
\<close>

theorem fallback_requires_html_client:
  assumes "\<not> includes_dot (req_path r)" and "\<not> req_accepts_html r"
    and "static_chain e (req_path r) = Passed"
    and "\<not> route ''/health'' (req_path r)" and "\<not> route ''/debug/files'' (req_path r)"
  shows "res_status (handle e r) = 404 \<and> res_body (handle e r) = Text ''File not found''
    \<and> (res_body (fallback e' r' h') = FileBody fp b' \<longrightarrow>
         req_accepts_html r' \<and> \<not> includes_dot (req_path r'))"
proof -
  have "\<not> route_star_ext ''.js'' (req_path r)" and "\<not> route_star_ext ''.mjs'' (req_path r)"
    using assms(1) by (rule no_dot_no_script_route)+
  then have "res_status (handle e r) = 404 \<and> res_body (handle e r) = Text ''File not found''"
    using assms by (simp add: handle_passed routes_def fallback_def)
  moreover have "res_body (fallback e' r' h') = FileBody fp b' \<longrightarrow>
      req_accepts_html r' \<and> \<not> includes_dot (req_path r')"
    by (auto simp: fallback_def split: if_splits option.splits dnode.splits)
  ultimately show ?thesis by blast
qed

lemmas server_eval = static_chain_def static_find_def env0_def endsWith_def suffix_to_prefix
  public_root_def dist_root_def mount_def toLowerCase_def lower_char_def includes_dot_def
  route_def index_html_def

lemma chain_index_mjs:
  "static_chain env0 ''/monaco/index.mjs'' = Served ''public/monaco/index.mjs'' ''export {}''"
  by (simp add: server_eval)

lemma chain_onig_wasm:
  "static_chain env0 ''/monaco/onig.wasm'' = Served ''../../dist/onig.wasm'' ''wasm''"
  by (simp add: server_eval)

lemma chain_nonexistent: "static_chain env0 ''/nonexistent.mjs'' = Passed"
  by (simp add: server_eval)

lemma chain_editor: "static_chain env0 ''/editor'' = Passed"
  by (simp add: server_eval)

lemma chain_health: "static_chain env0 ''/health'' = Passed"
  by (simp add: server_eval)

lemma chain_root: "static_chain env0 ''/'' = Served index_html ''<html>''"
  by (simp add: server_eval)

theorem static_module_content_type_witness:
  "static_chain env0 (req_path \<lparr>req_path = ''/monaco/index.mjs'', req_accepts_html = False\<rparr>) =
     Served ''public/monaco/index.mjs'' ''export {}''
   \<and> endsWith ''/monaco/index.mjs'' ''.mjs''
   \<and> res_headers (handle env0 \<lparr>req_path = ''/monaco/index.mjs'', req_accepts_html = False\<rparr>)
        ''Content-Type'' = Some ''application/javascript''
   \<and> static_chain env0 (req_path \<lparr>req_path = ''/monaco/onig.wasm'', req_accepts_html = False\<rparr>) =
     Served ''../../dist/onig.wasm'' ''wasm''
   \<and> endsWith ''/monaco/onig.wasm'' ''.wasm''
   \<and> res_headers (handle env0 \<lparr>req_path = ''/monaco/onig.wasm'', req_accepts_html = False\<rparr>)
        ''Content-Type'' = Some ''application/wasm''"
proof -
  let ?r1 = "\<lparr>req_path = ''/monaco/index.mjs'', req_accepts_html = False\<rparr>"
  let ?r2 = "\<lparr>req_path = ''/monaco/onig.wasm'', req_accepts_html = False\<rparr>"
  have c1: "static_chain env0 (req_path ?r1) = Served ''public/monaco/index.mjs'' ''export {}''"
    using chain_index_mjs by simp
  have c2: "static_chain env0 (req_path ?r2) = Served ''../../dist/onig.wasm'' ''wasm''"
    using chain_onig_wasm by simp
  have e1: "endsWith ''/monaco/index.mjs'' ''.mjs''"
    by (simp add: endsWith_def suffix_to_prefix)
  have e2: "endsWith ''/monaco/onig.wasm'' ''.wasm''"
    by (simp add: endsWith_def suffix_to_prefix)
  have t1: "res_headers (handle env0 ?r1) ''Content-Type'' = Some ''application/javascript''"
    using static_module_content_type [OF c1] e1 by simp
  have t2: "res_headers (handle env0 ?r2) ''Content-Type'' = Some ''application/wasm''"
    using static_module_content_type [OF c2] e2 by simp
  show ?thesis using c1 c2 e1 e2 t1 t2 by blast
qed

theorem missing_asset_is_404_witness:
  "includes_dot (req_path \<lparr>req_path = ''/nonexistent.mjs'', req_accepts_html = True\<rparr>)
   \<and> static_chain env0 (req_path \<lparr>req_path = ''/nonexistent.mjs'', req_accepts_html = True\<rparr>) = Passed
   \<and> res_status (handle env0 \<lparr>req_path = ''/nonexistent.mjs'', req_accepts_html = True\<rparr>) = 404"
proof -
  let ?r = "\<lparr>req_path = ''/nonexistent.mjs'', req_accepts_html = True\<rparr>"
  have d: "includes_dot (req_path ?r)" by (simp add: includes_dot_def)
  have c: "static_chain env0 (req_path ?r) = Passed" using chain_nonexistent by simp
  show ?thesis using missing_asset_is_404 [OF d c] d c by blast
qed

text \<open>
  C6 as stated fails: \<^verbatim>\<open>/health\<close> contains no dot, and a client that accepts HTML gets the
  health payload for it, not \<^verbatim>\<open>public/index.html\<close>.
\<close>

theorem health_is_not_default_document:
  "\<not> includes_dot (req_path \<lparr>req_path = ''/health'', req_accepts_html = True\<rparr>)
   \<and> req_accepts_html \<lparr>req_path = ''/health'', req_accepts_html = True\<rparr>
   \<and> env_disk env0 index_html = Some (RegularFile ''<html>'')
   \<and> res_body (handle env0 \<lparr>req_path = ''/health'', req_accepts_html = True\<rparr>) =
       HealthJson ''2025-01-01T00:00:00.000Z''
   \<and> res_body (handle env0 \<lparr>req_path = ''/health'', req_accepts_html = True\<rparr>) \<noteq>
       FileBody index_html ''<html>''"
proof -
  let ?r = "\<lparr>req_path = ''/health'', req_accepts_html = True\<rparr>"
  have c: "static_chain env0 (req_path ?r) = Passed" using chain_health by simp
  have "res_body (handle env0 ?r) = HealthJson ''2025-01-01T00:00:00.000Z''"
    by (simp add: handle_passed [OF c] routes_def) (simp add: server_eval)
  then show ?thesis by (simp add: server_eval)
qed

theorem navigation_gets_default_document_witness:
  "\<not> includes_dot (req_path \<lparr>req_path = ''/editor'', req_accepts_html = True\<rparr>)
   \<and> req_accepts_html \<lparr>req_path = ''/editor'', req_accepts_html = True\<rparr>
   \<and> static_chain env0 (req_path \<lparr>req_path = ''/editor'', req_accepts_html = True\<rparr>) = Passed
   \<and> \<not> route ''/health'' ''/editor'' \<and> \<not> route ''/debug/files'' ''/editor''
   \<and> env_disk env0 index_html = Some (RegularFile ''<html>'')
   \<and> res_status (handle env0 \<lparr>req_path = ''/editor'', req_accepts_html = True\<rparr>) = 200
   \<and> res_body (handle env0 \<lparr>req_path = ''/editor'', req_accepts_html = True\<rparr>) =
       FileBody index_html ''<html>''
   \<and> \<not> includes_dot (req_path \<lparr>req_path = ''/'', req_accepts_html = True\<rparr>)
   \<and> static_chain env0 (req_path \<lparr>req_path = ''/'', req_accepts_html = True\<rparr>) =
       Served index_html ''<html>''
   \<and> \<not> route ''/health'' ''/'' \<and> \<not> route ''/debug/files'' ''/''
   \<and> res_status (handle env0 \<lparr>req_path = ''/'', req_accepts_html = True\<rparr>) = 200
   \<and> res_body (handle env0 \<lparr>req_path = ''/'', req_accepts_html = True\<rparr>) =
       FileBody index_html ''<html>''"
proof -
  let ?r = "\<lparr>req_path = ''/editor'', req_accepts_html = True\<rparr>"
  let ?q = "\<lparr>req_path = ''/'', req_accepts_html = True\<rparr>"
  have a: "\<not> includes_dot (req_path ?r)" by (simp add: includes_dot_def)
  have b: "req_accepts_html ?r" by simp
  have c: "static_chain env0 (req_path ?r) = Passed" using chain_editor by simp
  have c': "static_chain env0 (req_path ?r) = Passed
      \<or> static_chain env0 (req_path ?r) = Served index_html ''<html>''"
    using c by simp
  have d: "\<not> route ''/health'' (req_path ?r)" by (simp add: server_eval)
  have e: "\<not> route ''/debug/files'' (req_path ?r)" by (simp add: server_eval)
  have f: "env_disk env0 index_html = Some (RegularFile ''<html>'')" by (simp add: server_eval)
  note th = navigation_gets_default_document [OF a b c' d e f]
  have a2: "\<not> includes_dot (req_path ?q)" by (simp add: includes_dot_def)
  have b2: "req_accepts_html ?q" by simp
  have c2: "static_chain env0 (req_path ?q) = Served index_html ''<html>''"
    using chain_root by simp
  have c2': "static_chain env0 (req_path ?q) = Passed
      \<or> static_chain env0 (req_path ?q) = Served index_html ''<html>''"
    using c2 by simp
  have d2: "\<not> route ''/health'' (req_path ?q)" by (simp add: server_eval)
  have e2: "\<not> route ''/debug/files'' (req_path ?q)" by (simp add: server_eval)
  note th2 = navigation_gets_default_document [OF a2 b2 c2' d2 e2 f]
  have d2': "\<not> route ''/health'' ''/''" and e2': "\<not> route ''/debug/files'' ''/''"
    using d2 e2 by simp_all
  have d': "\<not> route ''/health'' ''/editor''" and e': "\<not> route ''/debug/files'' ''/editor''"
    using d e by simp_all
  show ?thesis
    using th th2 a b c d' e' f a2 c2 d2' e2' by blast
qed

text \<open>
  C10 as stated fails: \<^verbatim>\<open>/health\<close> contains no dot, and a client that does not accept
  HTML gets status 200 and the health payload for it.
\<close>

theorem health_is_not_404:
  "\<not> includes_dot (req_path \<lparr>req_path = ''/health'', req_accepts_html = False\<rparr>)
   \<and> \<not> req_accepts_html \<lparr>req_path = ''/health'', req_accepts_html = False\<rparr>
   \<and> res_status (handle env0 \<lparr>req_path = ''/health'', req_accepts_html = False\<rparr>) = 200
   \<and> res_body (handle env0 \<lparr>req_path = ''/health'', req_accepts_html = False\<rparr>) =
       HealthJson ''2025-01-01T00:00:00.000Z''"
proof -
  let ?r = "\<lparr>req_path = ''/health'', req_accepts_html = False\<rparr>"
  have c: "static_chain env0 (req_path ?r) = Passed" using chain_health by simp
  have "handle env0 ?r = routes env0 ?r (mime_middleware (req_path ?r) Map.empty)"
    by (rule handle_passed [OF c])
  moreover have "route ''/health'' (req_path ?r)" by (simp add: server_eval)
  ultimately show ?thesis by (simp add: routes_def) (simp add: server_eval)
qed

theorem fallback_requires_html_client_witness:
  "\<not> includes_dot (req_path \<lparr>req_path = ''/editor'', req_accepts_html = False\<rparr>)
   \<and> \<not> req_accepts_html \<lparr>req_path = ''/editor'', req_accepts_html = False\<rparr>
   \<and> static_chain env0 (req_path \<lparr>req_path = ''/editor'', req_accepts_html = False\<rparr>) = Passed
   \<and> \<not> route ''/health'' ''/editor'' \<and> \<not> route ''/debug/files'' ''/editor''
   \<and> res_status (handle env0 \<lparr>req_path = ''/editor'', req_accepts_html = False\<rparr>) = 404
   \<and> res_body (handle env0 \<lparr>req_path = ''/editor'', req_accepts_html = False\<rparr>) =
       Text ''File not found''"
proof -
  let ?r = "\<lparr>req_path = ''/editor'', req_accepts_html = False\<rparr>"
  have a: "\<not> includes_dot (req_path ?r)" by (simp add: includes_dot_def)
  have b: "\<not> req_accepts_html ?r" by simp
  have c: "static_chain env0 (req_path ?r) = Passed" using chain_editor by simp
  have d: "\<not> route ''/health'' (req_path ?r)" by (simp add: server_eval)
  have e: "\<not> route ''/debug/files'' (req_path ?r)" by (simp add: server_eval)
  note th = fallback_requires_html_client [OF a b c d e]
  show ?thesis using th a b c d e by simp
qed

section \<open>Properties of the setup tester\<close>

lemma recorded_log:
  "type = ''success'' \<or> type = ''error'' \<or> type = ''warning'' \<Longrightarrow>
     recorded (log message type t) = recorded t + 1"
  by (auto simp: recorded_def log_def)

lemma requests_log: "requests (log message type t) = requests t"
  by (simp add: log_def)

lemma recorded_requests_update: "recorded (t\<lparr>requests := r\<rparr>) = recorded t"
  by (simp add: recorded_def)

lemma testFileExists_records:
  "\<exists>b. fst (testFileExists e filePath description t) = Inr b"
  "recorded (snd (testFileExists e filePath description t)) = recorded t + 1"
  "requests (snd (testFileExists e filePath description t)) = requests t"
  by (auto simp: testFileExists_def recorded_log requests_log split: sum.splits)

lemma testFileContent_records:
  "\<exists>b. fst (testFileContent e filePath description expected t) = Inr b"
  "recorded (snd (testFileContent e filePath description expected t)) = recorded t + 1"
  "requests (snd (testFileContent e filePath description expected t)) = requests t"
  by (auto simp: testFileContent_def recorded_log requests_log split: sum.splits)

lemma testHttpEndpoint_records:
  "\<exists>b. fst (testHttpEndpoint e url description t) = Inr b"
  "recorded (snd (testHttpEndpoint e url description t)) = recorded t + 1"
  "requests (snd (testHttpEndpoint e url description t)) = requests t @ [url]"
  by (auto simp: testHttpEndpoint_def Let_def recorded_log requests_log recorded_requests_update
      split: http_outcome.splits)

lemma run_check_records:
  "\<exists>b. fst (run_check e c t) = Inr b"
  "recorded (snd (run_check e c t)) = recorded t + 1"
  "requests (snd (run_check e c t)) = requests t @ probe_urls [c]"
  by (cases c; simp add: run_check_def probe_urls_def testFileExists_records testFileContent_records
      testHttpEndpoint_records)+

lemma run_checks_Cons:
  "run_checks e (c # cs) t = run_checks e cs (snd (run_check e c t))"
  using run_check_records(1) [of e c t] by (cases "run_check e c t") auto

lemma run_checks_append:
  "run_checks e (xs @ ys) t = run_checks e ys (snd (run_checks e xs t))"
  by (induction xs arbitrary: t) (simp_all add: run_checks_Cons del: run_checks.simps(2))

lemma probe_urls_Cons: "probe_urls (c # cs) = probe_urls [c] @ probe_urls cs"
  by (simp add: probe_urls_def)

lemma run_checks_records:
  "fst (run_checks e cs t) = Inr ()"
  "recorded (snd (run_checks e cs t)) = recorded t + length cs"
  "requests (snd (run_checks e cs t)) = requests t @ probe_urls cs"
proof (induction cs arbitrary: t)
  case Nil
  {
    case 1 show ?case by simp
  next
    case 2 show ?case by simp
  next
    case 3 show ?case by (simp add: probe_urls_def)
  }
next
  case (Cons c cs)
  {
    case 1 show ?case by (simp only: run_checks_Cons Cons.IH)
  next
    case 2 show ?case by (simp only: run_checks_Cons Cons.IH run_check_records) simp
  next
    case 3 show ?case
      by (simp only: run_checks_Cons Cons.IH run_check_records probe_urls_Cons [of c cs]) simp
  }
qed

lemma length_checks: "length checks = 21"
  by (simp add: checks_def monacoFiles_def)

lemma probe_urls_checks:
  "probe_urls checks =
     [''http://localhost:3000/health'', ''http://localhost:3000/monaco/index.mjs'',
      ''http://localhost:3000/monaco/editor-worker-main.mjs'']"
  by (simp add: checks_def monacoFiles_def probe_urls_def)

lemma script_defined_null: "script_defined JNull script = Inl ''Cannot read properties of null''"
  by (simp add: script_defined_def)

lemma get_prop_not_null: "v \<noteq> JNull \<Longrightarrow> \<exists>r. get_prop v k = Inr r"
  by (cases v) simp_all

lemma script_defined_not_null: "packageJson \<noteq> JNull \<Longrightarrow> \<exists>b. script_defined packageJson script = Inr b"
proof -
  assume "packageJson \<noteq> JNull"
  then obtain r where r: "get_prop packageJson ''scripts'' = Inr r"
    using get_prop_not_null by blast
  show ?thesis
  proof (cases r)
    case None
    then show ?thesis using r by (auto simp: script_defined_def)
  next
    case (Some scripts)
    show ?thesis
    proof (cases "truthy scripts")
      case False
      then show ?thesis using r Some by (auto simp: script_defined_def)
    next
      case True
      then have "scripts \<noteq> JNull" by auto
      then obtain r2 where "get_prop scripts script = Inr r2"
        using get_prop_not_null by blast
      then show ?thesis using r Some True by (cases r2) (auto simp: script_defined_def)
    qed
  qed
qed

lemma scripts_loop_records:
  assumes "packageJson \<noteq> JNull"
  shows "fst (scripts_loop packageJson ss t) = Inr ()
    \<and> recorded (snd (scripts_loop packageJson ss t)) = recorded t + length ss
    \<and> requests (snd (scripts_loop packageJson ss t)) = requests t"
proof (induction ss arbitrary: t)
  case Nil
  then show ?case by simp
next
  case (Cons script rest)
  obtain b where b: "script_defined packageJson script = Inr b"
    using script_defined_not_null [OF assms] by blast
  show ?case
    using b Cons.IH by (cases b) (simp_all add: recorded_log requests_log)
qed

lemma test_scripts_records:
  "(recorded (test_scripts e t) = recorded t + 5 \<or> recorded (test_scripts e t) = recorded t + 1)
   \<and> requests (test_scripts e t) = requests t"
proof (cases "readFile e ''package.json''")
  case (Inl msg)
  then show ?thesis
    by (simp add: test_scripts_def test_scripts_try_def recorded_log requests_log)
next
  case (Inr raw)
  show ?thesis
  proof (cases "json_parse e raw")
    case (Inl msg)
    then show ?thesis
      using Inr by (simp add: test_scripts_def test_scripts_try_def recorded_log requests_log)
  next
    case parsed: (Inr packageJson)
    show ?thesis
    proof (cases "packageJson = JNull")
      case True
      then show ?thesis
        using Inr parsed
        by (simp add: test_scripts_def test_scripts_try_def requiredScripts_def script_defined_null
            recorded_log requests_log)
    next
      case False
      obtain t1 where l: "scripts_loop packageJson requiredScripts t = (Inr (), t1)"
        using scripts_loop_records [OF False, of requiredScripts t]
        by (cases "scripts_loop packageJson requiredScripts t") auto
      have "recorded t1 = recorded t + 5" and "requests t1 = requests t"
        using scripts_loop_records [OF False, of requiredScripts t] l
        by (simp_all add: requiredScripts_def)
      then show ?thesis
        using Inr parsed l by (simp add: test_scripts_def test_scripts_try_def)
    qed
  qed
qed

lemma testHttpEndpoint_timeout:
  "http_get e url = TimedOut \<Longrightarrow>
   testHttpEndpoint e url description t =
     (Inr False, t\<lparr>errors := errors t @ [description @ '' timeout''], requests := requests t @ [url]\<rparr>)"
  by (simp add: testHttpEndpoint_def log_def)

lemma testHttpEndpoint_error:
  "http_get e url = RequestError msg \<Longrightarrow>
   testHttpEndpoint e url description t =
     (Inr False, t\<lparr>errors := errors t @ [description @ '' not accessible: '' @ msg],
        requests := requests t @ [url]\<rparr>)"
  by (simp add: testHttpEndpoint_def log_def)

lemma runTests_eq:
  "runTests e t =
     (Inr (generateReport (test_scripts e (snd (run_checks e checks t)))),
      test_scripts e (snd (run_checks e checks t)))"
  using run_checks_records(1) [of e checks t]
  by (cases "run_checks e checks t") (auto simp: runTests_def Let_def)

text \<open>
  C9.  \<^verbatim>\<open>runTests\<close> returns its report, whatever the environment answers: none of the
  21 awaited checks rejects, each records exactly one outcome, and the loop over the
  required scripts records five outcomes, or one error when \<^verbatim>\<open>package.json\<close> cannot be
  read.  A check that fails does not stop the checks after it.  Every probe calls
  \<^verbatim>\<open>http.get\<close> once; a probe that times out or whose request fails records one error.
  The counts of the report add up to the number of recorded outcomes.
\<close>

theorem checks_never_abort:
  "(\<exists>rep. runTests e t = (Inr rep, test_scripts e (snd (run_checks e checks t)))
       \<and> n_successes rep + n_warnings rep + n_errors rep = recorded (snd (runTests e t)))
   \<and> (recorded (snd (runTests e t)) = recorded t + 21 + 5
        \<or> recorded (snd (runTests e t)) = recorded t + 21 + 1)
   \<and> requests (snd (runTests e t)) = requests t @
        [''http://localhost:3000/health'', ''http://localhost:3000/monaco/index.mjs'',
         ''http://localhost:3000/monaco/editor-worker-main.mjs'']
   \<and> (\<exists>b. fst (run_check e c t) = Inr b)
   \<and> recorded (snd (run_check e c t)) = recorded t + 1
   \<and> run_checks e (before @ c # after) t =
        run_checks e after (snd (run_check e c (snd (run_checks e before t))))
   \<and> (http_get e url = TimedOut \<longrightarrow>
        testHttpEndpoint e url description t =
          (Inr False, t\<lparr>errors := errors t @ [description @ '' timeout''],
             requests := requests t @ [url]\<rparr>))
   \<and> (http_get e url = RequestError msg \<longrightarrow>
        testHttpEndpoint e url description t =
          (Inr False, t\<lparr>errors := errors t @ [description @ '' not accessible: '' @ msg],
             requests := requests t @ [url]\<rparr>))"
proof (intro conjI)
  let ?t1 = "snd (run_checks e checks t)"
  let ?t2 = "test_scripts e ?t1"
  have snd: "snd (runTests e t) = ?t2" by (simp add: runTests_eq)
  have "runTests e t = (Inr (generateReport ?t2), ?t2)" by (rule runTests_eq)
  moreover have "n_successes (generateReport ?t2) + n_warnings (generateReport ?t2)
      + n_errors (generateReport ?t2) = recorded ?t2"
    by (simp add: generateReport_def recorded_def)
  ultimately show "\<exists>rep. runTests e t = (Inr rep, ?t2)
       \<and> n_successes rep + n_warnings rep + n_errors rep = recorded (snd (runTests e t))"
    using snd by auto
  have r1: "recorded ?t1 = recorded t + 21"
    by (simp add: run_checks_records length_checks)
  show "recorded (snd (runTests e t)) = recorded t + 21 + 5
        \<or> recorded (snd (runTests e t)) = recorded t + 21 + 1"
    using test_scripts_records [of e ?t1] r1 snd by auto
  show "requests (snd (runTests e t)) = requests t @
        [''http://localhost:3000/health'', ''http://localhost:3000/monaco/index.mjs'',
         ''http://localhost:3000/monaco/editor-worker-main.mjs'']"
    using test_scripts_records [of e ?t1] snd
    by (simp add: run_checks_records probe_urls_checks)
  show "\<exists>b. fst (run_check e c t) = Inr b" by (rule run_check_records)
  show "recorded (snd (run_check e c t)) = recorded t + 1" by (rule run_check_records)
  show "run_checks e (before @ c # after) t =
        run_checks e after (snd (run_check e c (snd (run_checks e before t))))"
    by (simp only: run_checks_append run_checks_Cons)
  show "http_get e url = TimedOut \<longrightarrow>
        testHttpEndpoint e url description t =
          (Inr False, t\<lparr>errors := errors t @ [description @ '' timeout''],
             requests := requests t @ [url]\<rparr>)"
    by (simp add: testHttpEndpoint_timeout)
  show "http_get e url = RequestError msg \<longrightarrow>
        testHttpEndpoint e url description t =
          (Inr False, t\<lparr>errors := errors t @ [description @ '' not accessible: '' @ msg],
             requests := requests t @ [url]\<rparr>)"
    by (simp add: testHttpEndpoint_error)
qed

lemma runTests_env_down:
  "fst (runTests env_down SetupTester) = Inr \<lparr>n_successes = 0, n_warnings = 0, n_errors = 22\<rparr>"
  by (simp add: runTests_def checks_def monacoFiles_def run_check_def testFileExists_def
      testFileContent_def testHttpEndpoint_def test_scripts_def test_scripts_try_def env_down_def
      SetupTester_def log_def generateReport_def Let_def)

theorem checks_never_abort_witness:
  "http_get env_down ''http://localhost:3000/health'' = TimedOut
   \<and> http_get env_down ''http://localhost:3000/monaco/index.mjs'' = RequestError ''connect ECONNREFUSED''
   \<and> testHttpEndpoint env_down ''http://localhost:3000/health'' ''Health endpoint'' SetupTester =
       (Inr False, SetupTester\<lparr>errors := errors SetupTester @ [''Health endpoint'' @ '' timeout''],
          requests := requests SetupTester @ [''http://localhost:3000/health'']\<rparr>)
   \<and> testHttpEndpoint env_down ''http://localhost:3000/monaco/index.mjs'' ''Monaco main file'' SetupTester =
       (Inr False, SetupTester\<lparr>errors := errors SetupTester @
            [''Monaco main file'' @ '' not accessible: '' @ ''connect ECONNREFUSED''],
          requests := requests SetupTester @ [''http://localhost:3000/monaco/index.mjs'']\<rparr>)
   \<and> fst (runTests env_down SetupTester) = Inr \<lparr>n_successes = 0, n_warnings = 0, n_errors = 22\<rparr>
   \<and> requests (snd (runTests env_down SetupTester)) =
       [''http://localhost:3000/health'', ''http://localhost:3000/monaco/index.mjs'',
        ''http://localhost:3000/monaco/editor-worker-main.mjs'']"
proof -
  have a: "http_get env_down ''http://localhost:3000/health'' = TimedOut"
    by (simp add: env_down_def)
  have b: "http_get env_down ''http://localhost:3000/monaco/index.mjs'' =
      RequestError ''connect ECONNREFUSED''"
    by (simp add: env_down_def)
  have c: "testHttpEndpoint env_down ''http://localhost:3000/health'' ''Health endpoint'' SetupTester =
       (Inr False, SetupTester\<lparr>errors := errors SetupTester @ [''Health endpoint'' @ '' timeout''],
          requests := requests SetupTester @ [''http://localhost:3000/health'']\<rparr>)"
    using checks_never_abort [of env_down SetupTester _ _ _ "''http://localhost:3000/health''"
        "''Health endpoint''"] a by blast
  have d: "testHttpEndpoint env_down ''http://localhost:3000/monaco/index.mjs'' ''Monaco main file'' SetupTester =
       (Inr False, SetupTester\<lparr>errors := errors SetupTester @
            [''Monaco main file'' @ '' not accessible: '' @ ''connect ECONNREFUSED''],
          requests := requests SetupTester @ [''http://localhost:3000/monaco/index.mjs'']\<rparr>)"
    using checks_never_abort [of env_down SetupTester _ _ _ "''http://localhost:3000/monaco/index.mjs''"
        "''Monaco main file''" "''connect ECONNREFUSED''"] b by blast
  have "requests (snd (runTests env_down SetupTester)) = requests SetupTester @
       [''http://localhost:3000/health'', ''http://localhost:3000/monaco/index.mjs'',
        ''http://localhost:3000/monaco/editor-worker-main.mjs'']"
    using checks_never_abort [of env_down SetupTester] by blast
  then have e: "requests (snd (runTests env_down SetupTester)) =
       [''http://localhost:3000/health'', ''http://localhost:3000/monaco/index.mjs'',
        ''http://localhost:3000/monaco/editor-worker-main.mjs'']"
    by (simp add: SetupTester_def)
  show ?thesis
    using a b c d e runTests_env_down by blast
qed

end
